theory Spec2Isabelle
  imports Main "HOL-Library.Word"
begin

section \<open>Pairs of IPv4 addresses with a common property (ip\_pairs\_finder.py)\<close>

text \<open>
  The program reads a list of seed addresses, keeps the reachable ones, and for each of them
  draws random candidate addresses that have the same integer property (the sum of the
  octets, or the number of one bits), keeping the candidates that are reachable too.

  What the embedding makes explicit:
  \<^item> Python \<open>str\<close> is \<open>string\<close>, holding the UTF-8 bytes of the text; the Cyrillic
    literals of the source are written out byte by byte. A text has a character outside
    ASCII exactly when it has a byte above 127.
  \<^item> Python \<open>int\<close> is \<open>int\<close>.
  \<^item> An exception is a value \<open>Inl e\<close> of \<open>error + 'a\<close>.
  \<^item> The module \<open>random\<close> is a sequence of raw draws \<open>nat \<Rightarrow> nat\<close> and a position in
    it; \<open>random.randint\<close> consumes one draw. What makes the sequence random is stated where
    it is needed: every block of values that \<open>randint\<close> can return does occur.
  \<^item> The availability checker is a function of the number of probes made so far and of
    the address, so that its answers may change from one probe to the next.
  \<^item> A \<open>while True\<close> loop that may run forever is a \<^theory_text>\<open>partial_function\<close> into
    \<open>option\<close>: \<open>None\<close> is "does not return".
  \<^item> Logging is not modelled.
\<close>

subsection \<open>Exceptions\<close>

datatype error = ValueError | OSError | OverflowError

subsection \<open>Strings and the built-ins \<open>int\<close>, \<open>str\<close>, \<open>bin\<close>, \<open>split\<close>, \<open>count\<close>\<close>

definition is_digit :: "char \<Rightarrow> bool" where
  "is_digit c = (48 \<le> (of_char c :: nat) \<and> (of_char c :: nat) \<le> 57)"

definition digit_val :: "char \<Rightarrow> nat" where
  "digit_val c = of_char c - 48"

definition digit_char :: "nat \<Rightarrow> char" where
  "digit_char n = char_of (48 + n)"

text \<open>
  The characters that \<open>int\<close> drops around the number in an ASCII text: tab, line feed,
  vertical tab, form feed, carriage return (9 to 13) and the space (32).
\<close>

definition is_space :: "char \<Rightarrow> bool" where
  "is_space c = ((9 \<le> (of_char c :: nat) \<and> (of_char c :: nat) \<le> 13) \<or> (of_char c :: nat) = 32)"

definition strip :: "string \<Rightarrow> string" where
  "strip s = rev (dropWhile is_space (rev (dropWhile is_space s)))"

text \<open>
  The digits of an \<open>int\<close> literal in base ten: decimal digits, with single underscores
  allowed between two digits. \<open>prev_us\<close> says that the previous character was an underscore.
\<close>

fun parse_digits :: "bool \<Rightarrow> nat \<Rightarrow> string \<Rightarrow> nat option" where
  "parse_digits prev_us acc [] = (if prev_us then None else Some acc)"
| "parse_digits prev_us acc (c # cs) =
     (if c = CHR ''_'' then (if prev_us then None else parse_digits True acc cs)
      else if is_digit c then parse_digits False (10 * acc + digit_val c) cs
      else None)"

text \<open>
  The interpreter refuses to convert more than \<open>max_str_digits\<close> digits (CPython 3.11 and
  later; 4300 unless \<open>sys.set_int_max_str_digits\<close> is called, which the program does not
  do). The digits are counted without the underscores, leading zeros included. The same
  limit on \<open>str\<close> never applies here: the integers that the program prints are addresses'
  octets and properties of addresses for which a candidate was found.
\<close>

definition max_str_digits :: nat where
  "max_str_digits = 4300"

definition parse_unsigned :: "string \<Rightarrow> nat option" where
  "parse_unsigned s =
     (case s of
        [] \<Rightarrow> None
      | c # cs \<Rightarrow>
          if c = CHR ''_'' then None
          else if max_str_digits < length (filter is_digit s) then None
          else parse_digits False 0 s)"

definition is_ascii :: "string \<Rightarrow> bool" where
  "is_ascii s = list_all (\<lambda>c. (of_char c :: nat) < 128) s"

text \<open>
  \<open>int(s)\<close>. On an ASCII text: surrounding white space is dropped, then an optional sign,
  then the digits. On a text with a character outside ASCII the interpreter consults the
  Unicode database (white space and decimal digits of other scripts are accepted): its
  answer there is the parameter \<open>uni\<close>.
\<close>

definition py_int :: "(string \<Rightarrow> error + int) \<Rightarrow> string \<Rightarrow> error + int" where
  "py_int uni s =
     (if \<not> is_ascii s then uni s
      else case strip s of
        [] \<Rightarrow> Inl ValueError
      | c # cs \<Rightarrow>
          if c = CHR ''-'' then
            (case parse_unsigned cs of None \<Rightarrow> Inl ValueError | Some n \<Rightarrow> Inr (- int n))
          else if c = CHR ''+'' then
            (case parse_unsigned cs of None \<Rightarrow> Inl ValueError | Some n \<Rightarrow> Inr (int n))
          else
            (case parse_unsigned (c # cs) of None \<Rightarrow> Inl ValueError | Some n \<Rightarrow> Inr (int n)))"

fun str_nat :: "nat \<Rightarrow> string" where
  "str_nat n = (if n < 10 then [digit_char n] else str_nat (n div 10) @ [digit_char (n mod 10)])"

declare str_nat.simps [simp del]

text \<open>\<open>str(i)\<close>, which is also what \<open>{i}\<close> in an f-string and C's \<open>%d\<close> print.\<close>

definition py_str :: "int \<Rightarrow> string" where
  "py_str i = (if i < 0 then CHR ''-'' # str_nat (nat (- i)) else str_nat (nat i))"

fun bin_nat :: "nat \<Rightarrow> string" where
  "bin_nat n = (if n < 2 then [digit_char n] else bin_nat (n div 2) @ [digit_char (n mod 2)])"

declare bin_nat.simps [simp del]

text \<open>\<open>bin(i)\<close>: the prefix \<open>0b\<close>, after the sign, and the binary digits.\<close>

definition py_bin :: "int \<Rightarrow> string" where
  "py_bin i = (if i < 0 then ''-0b'' @ bin_nat (nat (- i)) else ''0b'' @ bin_nat (nat i))"

text \<open>\<open>s.count(c)\<close> for a one-character \<open>c\<close>.\<close>

definition str_count :: "string \<Rightarrow> char \<Rightarrow> int" where
  "str_count s c = int (length (filter (\<lambda>x. x = c) s))"

text \<open>\<open>s.split(sep)\<close> for a one-character \<open>sep\<close>: always at least one part.\<close>

fun str_split :: "char \<Rightarrow> string \<Rightarrow> string list" where
  "str_split sep [] = [[]]"
| "str_split sep (c # cs) =
     (if c = sep then [] # str_split sep cs
      else (case str_split sep cs of [] \<Rightarrow> [[c]] | p # ps \<Rightarrow> (c # p) # ps))"

text \<open>\<open>sum(int(octet) for octet in parts)\<close>: the first part that \<open>int\<close> rejects raises.\<close>

fun py_sum :: "(string \<Rightarrow> error + int) \<Rightarrow> int \<Rightarrow> string list \<Rightarrow> error + int" where
  "py_sum uni acc [] = Inr acc"
| "py_sum uni acc (p # ps) =
     (case py_int uni p of Inl e \<Rightarrow> Inl e | Inr v \<Rightarrow> py_sum uni (acc + v) ps)"

text \<open>The f-string \<open>f"{a}.{b}.{c}.{d}"\<close>, and C's format \<open>%d.%d.%d.%d\<close>.\<close>

definition dotted :: "int \<Rightarrow> int \<Rightarrow> int \<Rightarrow> int \<Rightarrow> string" where
  "dotted a b c d = py_str a @ ''.'' @ py_str b @ ''.'' @ py_str c @ ''.'' @ py_str d"

text \<open>\<open>sep.join(parts)\<close>, the inverse of \<open>split\<close>; the source does not call it, the
  statements about texts made of dot-separated parts do.\<close>

fun str_join :: "string \<Rightarrow> string list \<Rightarrow> string" where
  "str_join sep [] = []"
| "str_join sep [p] = p"
| "str_join sep (p # q # ps) = p @ sep @ str_join sep (q # ps)"

text \<open>The number that a group of decimal digits denotes.\<close>

definition dec_value :: "string \<Rightarrow> nat" where
  "dec_value p = foldl (\<lambda>acc c. 10 * acc + digit_val c) 0 p"

text \<open>
  A decimal integer as a text: an optional sign and one or more decimal digits, and the
  integer that it denotes.
\<close>

definition unsigned_digits :: "string \<Rightarrow> string" where
  "unsigned_digits p =
     (case p of [] \<Rightarrow> [] | c # cs \<Rightarrow> if c = CHR ''-'' \<or> c = CHR ''+'' then cs else p)"

definition is_decimal :: "string \<Rightarrow> bool" where
  "is_decimal p = (unsigned_digits p \<noteq> [] \<and> list_all is_digit (unsigned_digits p))"

definition decimal_value :: "string \<Rightarrow> int" where
  "decimal_value p =
     (case p of
        [] \<Rightarrow> 0
      | c # cs \<Rightarrow> if c = CHR ''-'' then - int (dec_value cs) else int (dec_value (unsigned_digits p)))"

subsection \<open>Bytes and the socket library\<close>

type_synonym bytes = "8 word list"

text \<open>\<open>n.to_bytes(len, byteorder='big')\<close>, unsigned.\<close>

definition to_bytes :: "int \<Rightarrow> nat \<Rightarrow> error + bytes" where
  "to_bytes n len =
     (if n < 0 \<or> 256 ^ len \<le> n then Inl OverflowError
      else Inr (map (\<lambda>i. word_of_int (n div 256 ^ (len - 1 - i))) [0..<len]))"

text \<open>\<open>int.from_bytes(bs, byteorder='big')\<close>, unsigned.\<close>

definition from_bytes :: "bytes \<Rightarrow> int" where
  "from_bytes bs = foldl (\<lambda>acc b. acc * 256 + uint b) 0 bs"

text \<open>\<open>socket.inet_ntoa\<close>: four bytes, printed in decimal with dots between them.\<close>

definition inet_ntoa :: "bytes \<Rightarrow> error + string" where
  "inet_ntoa packed =
     (case packed of
        [a, b, c, d] \<Rightarrow> Inr (dotted (uint a) (uint b) (uint c) (uint d))
      | _ \<Rightarrow> Inl OSError)"

text \<open>
  One part of a dotted-decimal address in the form \<open>inet_ntoa\<close> prints: one to three
  decimal digits, no leading zero unless the part is \<open>0\<close>, at most 255.
\<close>

definition canonical_octet :: "string \<Rightarrow> 8 word option" where
  "canonical_octet p =
     (if p \<noteq> [] \<and> length p \<le> 3 \<and> list_all is_digit p
         \<and> (1 < length p \<longrightarrow> hd p \<noteq> CHR ''0'') \<and> dec_value p \<le> 255
      then Some (word_of_nat (dec_value p)) else None)"

text \<open>
  \<open>socket.inet_aton\<close> is the C library's. On four dot-separated parts in the form above
  every platform returns the four bytes. A text with a NUL character, which no text of
  that form has, is refused before the C library sees it (\<open>ValueError\<close>). The other texts
  (fewer parts, octal or hexadecimal parts, trailing white space) are accepted or refused
  (\<open>OSError\<close>) depending on the platform: its answer on them is the parameter \<open>libc\<close>,
  \<open>None\<close> for a refusal.
\<close>

definition inet_aton :: "(string \<Rightarrow> bytes option) \<Rightarrow> string \<Rightarrow> error + bytes" where
  "inet_aton libc ip =
     (case map canonical_octet (str_split CHR ''.'' ip) of
        [Some a, Some b, Some c, Some d] \<Rightarrow> Inr [a, b, c, d]
      | _ \<Rightarrow>
          if CHR 0x00 \<in> set ip then Inl ValueError
          else (case libc ip of None \<Rightarrow> Inl OSError | Some packed \<Rightarrow> Inr packed))"

subsection \<open>The module \<open>random\<close>\<close>

text \<open>
  \<open>random.randint(lo, hi)\<close> takes the next raw draw and maps it into \<open>[lo, hi]\<close>;
  the position in the sequence of draws is the state of the generator.
\<close>

definition randint :: "(nat \<Rightarrow> nat) \<Rightarrow> int \<Rightarrow> int \<Rightarrow> nat \<Rightarrow> int \<times> nat" where
  "randint draws lo hi pos = (lo + int (draws pos mod nat (hi - lo + 1)), Suc pos)"

subsection \<open>The platform\<close>

record platform =
  draws :: "nat \<Rightarrow> nat"
  libc :: "string \<Rightarrow> bytes option"
  unicode_int :: "string \<Rightarrow> error + int"

text \<open>Parts of platforms for the examples: every raw draw is 0; the C library refuses
  every text that is not four decimal parts; \<open>int\<close> refuses every text that is not ASCII.\<close>

definition zero_draws :: "nat \<Rightarrow> nat" where
  "zero_draws i = 0"

definition strict_libc :: "string \<Rightarrow> bytes option" where
  "strict_libc ip = None"

definition ascii_only :: "string \<Rightarrow> error + int" where
  "ascii_only s = Inl ValueError"

text \<open>The raw draws 0, 1, 2, 3, ...\<close>

definition counter_draws :: "nat \<Rightarrow> nat" where
  "counter_draws i = i"

text \<open>Raw draws that, read three by three, are the three digits in base 256 of 0, 1, 2, ...\<close>

definition digit_draws :: "nat \<Rightarrow> nat" where
  "digit_draws i = (i div 3) div 256 ^ (i mod 3)"

text \<open>
  What the program relies on in a random source: any values that \<open>randint(lo, hi)\<close> can
  return do come. Reading the source from \<open>pos\<close> on in blocks of \<open>n\<close> calls of
  \<open>randint(lo, hi)\<close>, every block of \<open>n\<close> values of \<open>[lo, hi]\<close> occurs.
\<close>

definition every_block_occurs :: "(nat \<Rightarrow> nat) \<Rightarrow> int \<Rightarrow> int \<Rightarrow> nat \<Rightarrow> nat \<Rightarrow> bool" where
  "every_block_occurs dr lo hi n pos =
     (\<forall>vs. length vs = n \<and> (\<forall>v\<in>set vs. lo \<le> v \<and> v \<le> hi) \<longrightarrow>
        (\<exists>k. \<forall>j<n. fst (randint dr lo hi (pos + n * k + j)) = vs ! j))"

text \<open>The raw draws 10, 20, 30, 40, ...\<close>

definition tens_draws :: "nat \<Rightarrow> nat" where
  "tens_draws i = 10 * (i + 1)"

text \<open>Two checkers for the examples: every probe succeeds, every probe fails.\<close>

definition always_reachable :: "nat \<Rightarrow> string \<Rightarrow> bool" where
  "always_reachable n ip = True"

definition never_reachable :: "nat \<Rightarrow> string \<Rightarrow> bool" where
  "never_reachable n ip = False"

text \<open>A checker that finds one address reachable and no other.\<close>

definition only_reachable :: "string \<Rightarrow> nat \<Rightarrow> string \<Rightarrow> bool" where
  "only_reachable target n ip = (ip = target)"

subsection \<open>SumOctetsExtractor\<close>

definition SumOctets_extract_property :: "(string \<Rightarrow> error + int) \<Rightarrow> string \<Rightarrow> error + int" where
  "SumOctets_extract_property uni ip = py_sum uni 0 (str_split CHR ''.'' ip)"

text \<open>
  One pass through the body of \<open>while True\<close> in \<open>generate_candidate\<close>, reading the
  draws at \<open>pos\<close>, \<open>pos + 1\<close> and \<open>pos + 2\<close>: \<open>Some\<close> is what the pass returns,
  \<open>None\<close> says that it falls through to the next pass.
\<close>

definition SumOctets_attempt :: "(nat \<Rightarrow> nat) \<Rightarrow> int \<Rightarrow> nat \<Rightarrow> (error + string) option" where
  "SumOctets_attempt dr prop_value pos =
     (let a = fst (randint dr 0 255 pos);
          b = fst (randint dr 0 255 (pos + 1));
          c = fst (randint dr 0 255 (pos + 2));
          d = prop_value - (a + b + c)
      in if 0 \<le> d \<and> d \<le> 255 then Some (Inr (dotted a b c d)) else None)"

partial_function (option) SumOctets_generate_candidate ::
  "(nat \<Rightarrow> nat) \<Rightarrow> int \<Rightarrow> nat \<Rightarrow> ((error + string) \<times> nat) option" where
  "SumOctets_generate_candidate dr prop_value pos =
     (case SumOctets_attempt dr prop_value pos of
        Some candidate \<Rightarrow> Some (candidate, pos + 3)
      | None \<Rightarrow> SumOctets_generate_candidate dr prop_value (pos + 3))"

subsection \<open>CountOnesExtractor\<close>

definition CountOnes_extract_property :: "(string \<Rightarrow> bytes option) \<Rightarrow> string \<Rightarrow> error + int" where
  "CountOnes_extract_property lc ip =
     (case inet_aton lc ip of
        Inl e \<Rightarrow> Inl e
      | Inr packed \<Rightarrow> Inr (str_count (py_bin (from_bytes packed)) CHR ''1''))"

text \<open>One pass through the body of \<open>while True\<close>, reading the draw at \<open>pos\<close>.\<close>

definition CountOnes_attempt :: "(nat \<Rightarrow> nat) \<Rightarrow> int \<Rightarrow> nat \<Rightarrow> (error + string) option" where
  "CountOnes_attempt dr prop_value pos =
     (let ip_int = fst (randint dr 0 (2 ^ 32 - 1) pos)
      in if str_count (py_bin ip_int) CHR ''1'' = prop_value
         then (case to_bytes ip_int 4 of
                 Inl e \<Rightarrow> Some (Inl e)
               | Inr packed \<Rightarrow> Some (inet_ntoa packed))
         else None)"

partial_function (option) CountOnes_generate_candidate ::
  "(nat \<Rightarrow> nat) \<Rightarrow> int \<Rightarrow> nat \<Rightarrow> ((error + string) \<times> nat) option" where
  "CountOnes_generate_candidate dr prop_value pos =
     (case CountOnes_attempt dr prop_value pos of
        Some candidate \<Rightarrow> Some (candidate, pos + 1)
      | None \<Rightarrow> CountOnes_generate_candidate dr prop_value (pos + 1))"

subsection \<open>The interface IIPPropertyExtractor and its two implementations\<close>

datatype extractor = SumOctetsExtractor | CountOnesExtractor

fun extract_property :: "platform \<Rightarrow> extractor \<Rightarrow> string \<Rightarrow> error + int" where
  "extract_property pf SumOctetsExtractor ip = SumOctets_extract_property (unicode_int pf) ip"
| "extract_property pf CountOnesExtractor ip = CountOnes_extract_property (libc pf) ip"

fun generate_candidate ::
  "platform \<Rightarrow> extractor \<Rightarrow> int \<Rightarrow> nat \<Rightarrow> ((error + string) \<times> nat) option" where
  "generate_candidate pf SumOctetsExtractor prop_value pos =
     SumOctets_generate_candidate (draws pf) prop_value pos"
| "generate_candidate pf CountOnesExtractor prop_value pos =
     CountOnes_generate_candidate (draws pf) prop_value pos"

subsection \<open>IPPairFinder\<close>

text \<open>
  The state that a run threads through: where the generator stands, the probes that the
  checker has made, each with its answer, and the candidates that \<open>generate_candidate\<close>
  has returned, both in call order. The two traces are not variables of the source: they
  are what the statements about the calls made and the candidates drawn refer to.
\<close>

record state =
  rng_pos :: nat
  probed :: "(string \<times> bool) list"
  generated :: "string list"

record IPPairFinder =
  checker :: "nat \<Rightarrow> string \<Rightarrow> bool"
  attempts :: int

definition is_available :: "(nat \<Rightarrow> string \<Rightarrow> bool) \<Rightarrow> string \<Rightarrow> state \<Rightarrow> bool \<times> state" where
  "is_available chk ip st =
     (let ok = chk (length (probed st)) ip in (ok, st\<lparr>probed := probed st @ [(ip, ok)]\<rparr>))"

text \<open>The state before the first call.\<close>

definition initial_state :: state where
  "initial_state = \<lparr>rng_pos = 0, probed = [], generated = []\<rparr>"

type_synonym row = "string \<times> string \<times> string \<times> string \<times> string"

text \<open>The marker of the source, the Russian word for "available", in UTF-8.\<close>

definition available_marker :: string where
  "available_marker =
     [CHR 0xD0, CHR 0x94, CHR 0xD0, CHR 0xBE, CHR 0xD1, CHR 0x81, CHR 0xD1, CHR 0x82,
      CHR 0xD1, CHR 0x83, CHR 0xD0, CHR 0xBF, CHR 0xD0, CHR 0xB5, CHR 0xD0, CHR 0xBD]"

text \<open>The last field of a row: the Russian word for "property", \<open>=\<close>, and the value.\<close>

definition property_label :: "int \<Rightarrow> string" where
  "property_label prop =
     [CHR 0xD0, CHR 0xA1, CHR 0xD0, CHR 0xB2, CHR 0xD0, CHR 0xBE, CHR 0xD0, CHR 0xB9,
      CHR 0xD1, CHR 0x81, CHR 0xD1, CHR 0x82, CHR 0xD0, CHR 0xB2, CHR 0xD0, CHR 0xBE,
      CHR 0x3D] @ py_str prop"

definition pair_row :: "string \<Rightarrow> string \<Rightarrow> int \<Rightarrow> row" where
  "pair_row ip candidate prop =
     (ip, available_marker, candidate, available_marker, property_label prop)"

text \<open>The loop \<open>for _ in range(self.attempts)\<close>, with the attempts that are left. The flag
  \<open>found\<close> of the source only chooses a log message.\<close>

fun attempt_loop ::
  "IPPairFinder \<Rightarrow> platform \<Rightarrow> extractor \<Rightarrow> string \<Rightarrow> int \<Rightarrow> nat \<Rightarrow> row list \<Rightarrow> state
     \<Rightarrow> (error + row list \<times> state) option" where
  "attempt_loop self pf ex ip prop 0 pairs st = Some (Inr (pairs, st))"
| "attempt_loop self pf ex ip prop (Suc n) pairs st =
     (case generate_candidate pf ex prop (rng_pos st) of
        None \<Rightarrow> None
      | Some (Inl e, pos) \<Rightarrow> Some (Inl e)
      | Some (Inr candidate, pos) \<Rightarrow>
          (let st1 = st\<lparr>rng_pos := pos, generated := generated st @ [candidate]\<rparr>
           in if candidate = ip then attempt_loop self pf ex ip prop n pairs st1
              else (case is_available (checker self) candidate st1 of
                      (ok, st2) \<Rightarrow>
                        if ok
                        then attempt_loop self pf ex ip prop n
                               (pairs @ [pair_row ip candidate prop]) st2
                        else attempt_loop self pf ex ip prop n pairs st2)))"

text \<open>The loop \<open>for ip in ips\<close>.\<close>

fun seed_loop ::
  "IPPairFinder \<Rightarrow> platform \<Rightarrow> extractor \<Rightarrow> string list \<Rightarrow> row list \<Rightarrow> state
     \<Rightarrow> (error + row list \<times> state) option" where
  "seed_loop self pf ex [] pairs st = Some (Inr (pairs, st))"
| "seed_loop self pf ex (ip # ips) pairs st =
     (case is_available (checker self) ip st of
        (ok, st1) \<Rightarrow>
          if ok then
            (case extract_property pf ex ip of
               Inl e \<Rightarrow> Some (Inl e)
             | Inr prop \<Rightarrow>
                 (case attempt_loop self pf ex ip prop (nat (attempts self)) pairs st1 of
                    None \<Rightarrow> None
                  | Some (Inl e) \<Rightarrow> Some (Inl e)
                  | Some (Inr (pairs', st2)) \<Rightarrow> seed_loop self pf ex ips pairs' st2))
          else seed_loop self pf ex ips pairs st1)"

definition find_pairs ::
  "IPPairFinder \<Rightarrow> platform \<Rightarrow> string list \<Rightarrow> extractor \<Rightarrow> state
     \<Rightarrow> (error + row list \<times> state) option" where
  "find_pairs self pf ips prop_extractor st = seed_loop self pf prop_extractor ips [] st"

subsection \<open>IPApp\<close>

text \<open>The header of the source, in Russian: address 1, criterion 1, address 2, criterion 2,
  property.\<close>

definition header :: "string list" where
  "header =
     [[CHR 0x49, CHR 0x50, CHR 0x76, CHR 0x34, CHR 0x2D, CHR 0xD0, CHR 0xB0, CHR 0xD0, CHR 0xB4,
       CHR 0xD1, CHR 0x80, CHR 0xD0, CHR 0xB5, CHR 0xD1, CHR 0x81, CHR 0x20, CHR 0x31],
      [CHR 0xD0, CHR 0x9A, CHR 0xD1, CHR 0x80, CHR 0xD0, CHR 0xB8, CHR 0xD1, CHR 0x82, CHR 0xD0,
       CHR 0xB5, CHR 0xD1, CHR 0x80, CHR 0xD0, CHR 0xB8, CHR 0xD0, CHR 0xB9, CHR 0x20, CHR 0x31],
      [CHR 0x49, CHR 0x50, CHR 0x76, CHR 0x34, CHR 0x2D, CHR 0xD0, CHR 0xB0, CHR 0xD0, CHR 0xB4,
       CHR 0xD1, CHR 0x80, CHR 0xD0, CHR 0xB5, CHR 0xD1, CHR 0x81, CHR 0x20, CHR 0x32],
      [CHR 0xD0, CHR 0x9A, CHR 0xD1, CHR 0x80, CHR 0xD0, CHR 0xB8, CHR 0xD1, CHR 0x82, CHR 0xD0,
       CHR 0xB5, CHR 0xD1, CHR 0x80, CHR 0xD0, CHR 0xB8, CHR 0xD0, CHR 0xB9, CHR 0x20, CHR 0x32],
      [CHR 0xD0, CHR 0xA1, CHR 0xD0, CHR 0xB2, CHR 0xD0, CHR 0xBE, CHR 0xD0, CHR 0xB9, CHR 0xD1,
       CHR 0x81, CHR 0xD1, CHR 0x82, CHR 0xD0, CHR 0xB2, CHR 0xD0, CHR 0xBE]]"

text \<open>
  \<open>IPApp.run\<close>: \<open>ips\<close> is what the generator of addresses returned (name resolution is
  outside the model); the result is what \<open>write_csv\<close> is called with.
\<close>

definition run ::
  "IPPairFinder \<Rightarrow> platform \<Rightarrow> extractor \<Rightarrow> string list \<Rightarrow> state
     \<Rightarrow> (error + (string list \<times> row list) \<times> state) option" where
  "run pair_finder pf prop_extractor ips st =
     (case find_pairs pair_finder pf ips prop_extractor st of
        None \<Rightarrow> None
      | Some (Inl e) \<Rightarrow> Some (Inl e)
      | Some (Inr (pairs, st')) \<Rightarrow> Some (Inr ((header, pairs), st')))"

section \<open>Properties\<close>

subsection \<open>Decimal text and \<open>int\<close>\<close>

lemma is_digit_digit_char: "d < 10 \<Longrightarrow> is_digit (digit_char d)"
  by (simp add: is_digit_def digit_char_def)

lemma digit_val_digit_char: "d < 10 \<Longrightarrow> digit_val (digit_char d) = d"
  by (simp add: digit_val_def digit_char_def)

lemma is_digit_not_space: "is_digit c \<Longrightarrow> \<not> is_space c"
  by (simp add: is_digit_def is_space_def)

lemma is_digit_not_special:
  "is_digit c \<Longrightarrow> c \<noteq> CHR ''.'' \<and> c \<noteq> CHR ''_'' \<and> c \<noteq> CHR ''-'' \<and> c \<noteq> CHR ''+''"
  by (auto simp: is_digit_def)

lemma str_nat_digits: "list_all is_digit (str_nat n)"
proof (induction n rule: str_nat.induct)
  case (1 n)
  show ?case
  proof (cases "n < 10")
    case True
    then show ?thesis by (subst str_nat.simps) (simp add: is_digit_digit_char)
  next
    case False
    with 1 show ?thesis by (subst str_nat.simps) (simp add: is_digit_digit_char)
  qed
qed

lemma str_nat_not_Nil: "str_nat n \<noteq> []"
  by (subst str_nat.simps) simp

lemma dec_value_snoc: "dec_value (ds @ [c]) = 10 * dec_value ds + digit_val c"
  by (simp add: dec_value_def)

lemma dec_value_str_nat: "dec_value (str_nat n) = n"
proof (induction n rule: str_nat.induct)
  case (1 n)
  show ?case
  proof (cases "n < 10")
    case True
    then show ?thesis by (subst str_nat.simps) (simp add: dec_value_def digit_val_digit_char)
  next
    case False
    with 1 show ?thesis
      by (subst str_nat.simps) (simp add: dec_value_snoc digit_val_digit_char)
  qed
qed

lemma parse_digits_all_digits:
  "list_all is_digit ds \<Longrightarrow>
   parse_digits False acc ds = Some (foldl (\<lambda>a c. 10 * a + digit_val c) acc ds)"
proof (induction ds arbitrary: acc)
  case Nil
  then show ?case by simp
next
  case (Cons c ds)
  then show ?case using is_digit_not_special [of c] by simp
qed

lemma parse_unsigned_digits:
  assumes "list_all is_digit ds" "ds \<noteq> []" "length ds \<le> max_str_digits"
  shows "parse_unsigned ds = Some (dec_value ds)"
proof -
  obtain c cs where ds: "ds = c # cs" using assms(2) by (cases ds) auto
  have "is_digit c" using assms(1) ds by simp
  then have c: "c \<noteq> CHR ''_''" using is_digit_not_special by auto
  have f: "filter is_digit ds = ds" using assms(1) by (simp add: filter_id_conv list_all_iff)
  have "\<not> max_str_digits < length (filter is_digit ds)" using assms(3) f by simp
  then show ?thesis
    using c parse_digits_all_digits [OF assms(1), of 0] unfolding ds
    by (simp add: parse_unsigned_def dec_value_def del: parse_digits.simps)
qed

lemma parse_unsigned_too_long:
  assumes "list_all is_digit ds" "max_str_digits < length ds"
  shows "parse_unsigned ds = None"
proof -
  have f: "filter is_digit ds = ds" using assms(1) by (simp add: filter_id_conv list_all_iff)
  show ?thesis
    using assms(2) f by (cases ds) (simp_all add: parse_unsigned_def del: parse_digits.simps)
qed

lemma strip_no_space: "\<forall>c\<in>set s. \<not> is_space c \<Longrightarrow> strip s = s"
proof -
  assume h: "\<forall>c\<in>set s. \<not> is_space c"
  have g: "dropWhile is_space t = t" if "set t = set s" for t
    using h that by (cases t) auto
  show ?thesis by (simp add: strip_def g)
qed

lemma is_digit_ascii: "is_digit c \<Longrightarrow> (of_char c :: nat) < 128"
  by (simp add: is_digit_def)

lemma is_ascii_digits: "list_all is_digit ds \<Longrightarrow> is_ascii ds"
  by (auto simp: is_ascii_def list_all_iff is_digit_ascii)

lemma py_int_digits:
  assumes "list_all is_digit ds" "ds \<noteq> []" "length ds \<le> max_str_digits"
  shows "py_int uni ds = Inr (int (dec_value ds))"
proof -
  have s: "strip ds = ds"
    using assms(1) by (intro strip_no_space) (auto simp: list_all_iff is_digit_not_space)
  obtain c cs where ds: "ds = c # cs" using assms(2) by (cases ds) auto
  have "is_digit c" using assms(1) ds by simp
  then have c: "c \<noteq> CHR ''-''" "c \<noteq> CHR ''+''" using is_digit_not_special by auto
  have a: "is_ascii (c # cs)" using is_ascii_digits [OF assms(1)] ds by simp
  show ?thesis
    using a c parse_unsigned_digits [OF assms] s by (simp add: py_int_def ds)
qed

lemma py_int_too_long:
  assumes "list_all is_digit ds" "max_str_digits < length ds"
  shows "py_int uni ds = Inl ValueError"
proof -
  have s: "strip ds = ds"
    using assms(1) by (intro strip_no_space) (auto simp: list_all_iff is_digit_not_space)
  obtain c cs where ds: "ds = c # cs" using assms(2) by (cases ds) auto
  have "is_digit c" using assms(1) ds by simp
  then have c: "c \<noteq> CHR ''-''" "c \<noteq> CHR ''+''" using is_digit_not_special by auto
  have a: "is_ascii (c # cs)" using is_ascii_digits [OF assms(1)] ds by simp
  show ?thesis
    using a c parse_unsigned_too_long [OF assms] s by (simp add: py_int_def ds)
qed

lemma py_int_signed_digits:
  assumes "list_all is_digit ds" "ds \<noteq> []" "length ds \<le> max_str_digits"
  shows "py_int uni (CHR ''-'' # ds) = Inr (- int (dec_value ds))"
    and "py_int uni (CHR ''+'' # ds) = Inr (int (dec_value ds))"
proof -
  have n: "\<not> is_space CHR ''-''" "\<not> is_space CHR ''+''" by (simp_all add: is_space_def)
  have d: "\<forall>c\<in>set ds. \<not> is_space c"
    using assms(1) by (auto simp: list_all_iff is_digit_not_space)
  have s: "strip (CHR ''-'' # ds) = CHR ''-'' # ds" "strip (CHR ''+'' # ds) = CHR ''+'' # ds"
    using n d by (simp_all add: strip_no_space)
  have a: "is_ascii (CHR ''-'' # ds)" "is_ascii (CHR ''+'' # ds)"
    using is_ascii_digits [OF assms(1)] by (simp_all add: is_ascii_def)
  show "py_int uni (CHR ''-'' # ds) = Inr (- int (dec_value ds))"
    using parse_unsigned_digits [OF assms] a(1) by (simp add: py_int_def s)
  show "py_int uni (CHR ''+'' # ds) = Inr (int (dec_value ds))"
    using parse_unsigned_digits [OF assms] a(2) by (simp add: py_int_def s)
qed

lemma length_str_nat: "n < 1000 \<Longrightarrow> length (str_nat n) \<le> 3"
proof -
  assume n: "n < 1000"
  have a: "length (str_nat m) = 1" if "m < 10" for m
    using that by (subst str_nat.simps) simp
  have b: "length (str_nat m) \<le> 2" if "m < 100" for m
  proof (cases "m < 10")
    case True
    then show ?thesis by (simp add: a)
  next
    case False
    have "m div 10 < 10" using that by simp
    then show ?thesis using False by (subst str_nat.simps) (simp add: a)
  qed
  show ?thesis
  proof (cases "n < 10")
    case True
    then show ?thesis by (simp add: a)
  next
    case False
    have "n div 10 < 100" using n by simp
    then show ?thesis using False b [of "n div 10"] by (subst str_nat.simps) simp
  qed
qed

lemma py_int_py_str:
  assumes "\<bar>i\<bar> < 1000"
  shows "py_int uni (py_str i) = Inr i"
proof (cases "i < 0")
  case True
  have "nat (- i) < 1000" using assms by simp
  then have "length (str_nat (nat (- i))) \<le> 3" by (rule length_str_nat)
  then have l: "length (str_nat (nat (- i))) \<le> max_str_digits"
    by (simp add: max_str_digits_def)
  have "py_int uni (CHR ''-'' # str_nat (nat (- i))) = Inr (- int (dec_value (str_nat (nat (- i)))))"
    using str_nat_digits str_nat_not_Nil l by (rule py_int_signed_digits(1))
  then show ?thesis using True by (simp add: py_str_def dec_value_str_nat)
next
  case False
  have "nat i < 1000" using assms by simp
  then have "length (str_nat (nat i)) \<le> 3" by (rule length_str_nat)
  then have l: "length (str_nat (nat i)) \<le> max_str_digits"
    by (simp add: max_str_digits_def)
  have "py_int uni (str_nat (nat i)) = Inr (int (dec_value (str_nat (nat i))))"
    using str_nat_digits str_nat_not_Nil l by (rule py_int_digits)
  then show ?thesis using False by (simp add: py_str_def dec_value_str_nat)
qed

subsection \<open>Splitting dotted text\<close>

lemma str_split_no_sep: "sep \<notin> set p \<Longrightarrow> str_split sep p = [p]"
  by (induction p) auto

lemma str_split_append: "sep \<notin> set p \<Longrightarrow> str_split sep (p @ sep # rest) = p # str_split sep rest"
  by (induction p) auto

lemma dot_notin_digits: "list_all is_digit ds \<Longrightarrow> CHR ''.'' \<notin> set ds"
  using is_digit_not_special by (auto simp: list_all_iff)

lemma dot_notin_py_str: "CHR ''.'' \<notin> set (py_str i)"
  using dot_notin_digits [OF str_nat_digits] by (simp add: py_str_def)

lemma str_split_join:
  "ps \<noteq> [] \<Longrightarrow> \<forall>p\<in>set ps. sep \<notin> set p \<Longrightarrow> str_split sep (str_join [sep] ps) = ps"
proof (induction "[sep]" ps rule: str_join.induct)
  case 1
  then show ?case by simp
next
  case (2 p)
  then show ?case by (simp add: str_split_no_sep)
next
  case (3 p q ps)
  then show ?case by (simp add: str_split_append)
qed

lemma str_split_dotted:
  "str_split CHR ''.'' (dotted a b c d) = [py_str a, py_str b, py_str c, py_str d]"
  by (simp add: dotted_def str_split_append str_split_no_sep dot_notin_py_str)

lemma py_int_decimal:
  assumes "is_decimal p" "length (unsigned_digits p) \<le> max_str_digits"
  shows "py_int uni p = Inr (decimal_value p)"
proof -
  from assms(1) obtain c cs where p: "p = c # cs"
    by (cases p) (auto simp: is_decimal_def unsigned_digits_def)
  show ?thesis
  proof (cases "c = CHR ''-'' \<or> c = CHR ''+''")
    case True
    then have u: "unsigned_digits p = cs" by (simp add: unsigned_digits_def p)
    have d: "list_all is_digit cs" "cs \<noteq> []" "length cs \<le> max_str_digits"
      using assms u by (simp_all add: is_decimal_def)
    show ?thesis
      using True py_int_signed_digits [OF d, of uni]
      by (auto simp: p decimal_value_def unsigned_digits_def)
  next
    case False
    then have u: "unsigned_digits p = p" by (simp add: unsigned_digits_def p)
    have d: "list_all is_digit p" "p \<noteq> []" "length p \<le> max_str_digits"
      using assms u by (simp_all add: is_decimal_def)
    show ?thesis
      using False py_int_digits [OF d, of uni] u
      by (simp add: decimal_value_def p)
  qed
qed

lemma dot_notin_decimal: "is_decimal p \<Longrightarrow> CHR ''.'' \<notin> set p"
proof -
  assume a: "is_decimal p"
  then obtain c cs where p: "p = c # cs"
    by (cases p) (auto simp: is_decimal_def unsigned_digits_def)
  show ?thesis
  proof (cases "c = CHR ''-'' \<or> c = CHR ''+''")
    case True
    then have "list_all is_digit cs" using a by (simp add: is_decimal_def unsigned_digits_def p)
    then show ?thesis using True dot_notin_digits [of cs] by (auto simp: p)
  next
    case False
    then have "list_all is_digit p" using a by (simp add: is_decimal_def unsigned_digits_def p)
    then show ?thesis by (rule dot_notin_digits)
  qed
qed

lemma py_sum_decimal:
  "\<forall>p\<in>set ps. is_decimal p \<and> length (unsigned_digits p) \<le> max_str_digits \<Longrightarrow>
   py_sum uni acc ps = Inr (acc + (\<Sum>p\<leftarrow>ps. decimal_value p))"
  by (induction ps arbitrary: acc) (simp_all add: py_int_decimal)

lemma py_sum_py_str:
  "\<forall>n\<in>set ns. \<bar>n\<bar> < 1000 \<Longrightarrow> py_sum uni acc (map py_str ns) = Inr (acc + sum_list ns)"
  by (induction ns arbitrary: acc) (simp_all add: py_int_py_str)

lemma SumOctets_extract_property_dotted:
  assumes "0 \<le> a \<and> a \<le> 255" "0 \<le> b \<and> b \<le> 255" "0 \<le> c \<and> c \<le> 255" "0 \<le> d \<and> d \<le> 255"
  shows "SumOctets_extract_property uni (dotted a b c d) = Inr (a + b + c + d)"
  using assms py_sum_py_str [of "[a, b, c, d]" uni 0]
  by (simp add: SumOctets_extract_property_def str_split_dotted)

lemma digit_char_values:
  "digit_char 0 = CHR ''0''" "digit_char 1 = CHR ''1''" "digit_char 2 = CHR ''2''"
  "digit_char 3 = CHR ''3''" "digit_char 4 = CHR ''4''" "digit_char 5 = CHR ''5''"
  "digit_char 6 = CHR ''6''" "digit_char 7 = CHR ''7''" "digit_char 8 = CHR ''8''"
  "digit_char 9 = CHR ''9''" "digit_char (Suc 0) = CHR ''1''"
  by code_simp+

lemmas eval_text = dotted_def py_str_def str_nat.simps digit_char_values

lemmas eval_count = str_count_def py_bin_def bin_nat.simps digit_char_values

lemma SumOctets_extract_property_too_long:
  assumes "list_all is_digit ds" "max_str_digits < length ds"
  shows "SumOctets_extract_property uni ds = Inl ValueError"
proof -
  have "str_split CHR ''.'' ds = [ds]"
    using assms(1) by (intro str_split_no_sep dot_notin_digits)
  then show ?thesis
    using py_int_too_long [OF assms, of uni] by (simp add: SumOctets_extract_property_def)
qed

text \<open>
  C8. For every valid dotted-quad address, with octets \<open>a\<close>, \<open>b\<close>, \<open>c\<close>, \<open>d\<close> in
  \<open>[0, 255]\<close>, \<open>SumOctetsExtractor.extract_property\<close> returns the sum of the four octets,
  which lies in \<open>[0, 1020]\<close>; on \<open>10.20.30.40\<close> it returns 100.
\<close>

theorem SumOctets_extract_property_valid:
  assumes "0 \<le> a \<and> a \<le> 255" and "0 \<le> b \<and> b \<le> 255"
    and "0 \<le> c \<and> c \<le> 255" and "0 \<le> d \<and> d \<le> 255"
  shows "SumOctets_extract_property uni (dotted a b c d) = Inr (a + b + c + d)
         \<and> 0 \<le> a + b + c + d \<and> a + b + c + d \<le> 1020
         \<and> SumOctets_extract_property uni ''10.20.30.40'' = Inr 100"
proof -
  have "dotted 10 20 30 40 = ''10.20.30.40''"
    by (simp add: eval_text)
  then have "SumOctets_extract_property uni ''10.20.30.40'' = Inr 100"
    using SumOctets_extract_property_dotted [of 10 20 30 40 uni] by simp
  then show ?thesis
    using assms by (simp add: SumOctets_extract_property_dotted)
qed

theorem SumOctets_extract_property_valid_witness:
  "SumOctets_extract_property ascii_only (dotted 192 168 0 1) = Inr 361
   \<and> dotted 192 168 0 1 = ''192.168.0.1''"
proof -
  have "dotted 192 168 0 1 = ''192.168.0.1''"
    by (simp add: eval_text)
  then show ?thesis
    using SumOctets_extract_property_valid [of 192 168 0 1 ascii_only] by simp
qed

text \<open>
  C10, as stated, fails for integers of more than 4300 digits: \<open>int\<close> refuses them, and
  \<open>extract_property\<close> raises \<open>ValueError\<close>. Here the text is 4301 times the digit 1.
\<close>

theorem SumOctets_extract_property_digit_limit_counterexample:
  "SumOctets_extract_property ascii_only (replicate 4301 CHR ''1'') = Inl ValueError"
proof -
  have "list_all is_digit (replicate 4301 CHR ''1'')"
    unfolding list_all_iff set_replicate_conv_if by (simp add: is_digit_def)
  moreover have "max_str_digits < length (replicate 4301 CHR ''1'')"
    unfolding length_replicate by (simp add: max_str_digits_def)
  ultimately show ?thesis by (rule SumOctets_extract_property_too_long)
qed

text \<open>
  C10, amended. \<open>SumOctetsExtractor.extract_property\<close> checks neither how many parts the
  text has nor how large they are: on any text made of one or more dot-separated decimal
  integers, each an optional sign and at most 4300 digits, it returns the sum of the
  integers. So \<open>300.1.1.1\<close> gives 303, \<open>1.2\<close> gives 3, \<open>-1.0.0.0\<close> gives -1, and
  \<open>300.300.300.300\<close> gives 1200, outside \<open>[0, 1020]\<close>.
\<close>

theorem SumOctets_extract_property_unvalidated:
  "(ps \<noteq> [] \<and> (\<forall>p\<in>set ps. is_decimal p \<and> length (unsigned_digits p) \<le> max_str_digits) \<longrightarrow>
      SumOctets_extract_property uni (str_join ''.'' ps) = Inr (\<Sum>p\<leftarrow>ps. decimal_value p))
   \<and> SumOctets_extract_property uni ''300.1.1.1'' = Inr 303
   \<and> SumOctets_extract_property uni ''1.2'' = Inr 3
   \<and> SumOctets_extract_property uni ''-1.0.0.0'' = Inr (- 1)
   \<and> SumOctets_extract_property uni ''300.300.300.300'' = Inr 1200"
proof -
  have gen: "SumOctets_extract_property uni (str_join ''.'' qs) = Inr (\<Sum>p\<leftarrow>qs. decimal_value p)"
    if "qs \<noteq> []" "\<forall>p\<in>set qs. is_decimal p \<and> length (unsigned_digits p) \<le> max_str_digits" for qs
  proof -
    have "\<forall>p\<in>set qs. CHR ''.'' \<notin> set p" using that(2) dot_notin_decimal by blast
    then have "str_split CHR ''.'' (str_join ''.'' qs) = qs"
      using that(1) by (rule str_split_join [rotated])
    then show ?thesis
      using py_sum_decimal [OF that(2), of uni 0] by (simp add: SumOctets_extract_property_def)
  qed
  have d: "is_decimal ''300'' \<and> length (unsigned_digits ''300'') \<le> max_str_digits"
    "is_decimal ''1'' \<and> length (unsigned_digits ''1'') \<le> max_str_digits"
    "is_decimal ''2'' \<and> length (unsigned_digits ''2'') \<le> max_str_digits"
    "is_decimal ''0'' \<and> length (unsigned_digits ''0'') \<le> max_str_digits"
    "is_decimal ''-1'' \<and> length (unsigned_digits ''-1'') \<le> max_str_digits"
    by (simp_all add: is_decimal_def unsigned_digits_def is_digit_def max_str_digits_def)
  have v: "decimal_value ''300'' = 300" "decimal_value ''1'' = 1" "decimal_value ''2'' = 2"
    "decimal_value ''0'' = 0" "decimal_value ''-1'' = - 1"
    by (simp_all add: decimal_value_def unsigned_digits_def dec_value_def digit_val_def)
  have "SumOctets_extract_property uni ''300.1.1.1'' = Inr 303"
    using gen [of "[''300'', ''1'', ''1'', ''1'']"] d v by simp
  moreover have "SumOctets_extract_property uni ''1.2'' = Inr 3"
    using gen [of "[''1'', ''2'']"] d v by simp
  moreover have "SumOctets_extract_property uni ''-1.0.0.0'' = Inr (- 1)"
    using gen [of "[''-1'', ''0'', ''0'', ''0'']"] d v by simp
  moreover have "SumOctets_extract_property uni ''300.300.300.300'' = Inr 1200"
    using gen [of "[''300'', ''300'', ''300'', ''300'']"] d v by simp
  ultimately show ?thesis using gen by blast
qed

theorem SumOctets_extract_property_unvalidated_witness:
  "SumOctets_extract_property ascii_only ''007.-2000.+5'' = Inr (- 1988)"
proof -
  have "is_decimal ''007'' \<and> length (unsigned_digits ''007'') \<le> max_str_digits"
    "is_decimal ''-2000'' \<and> length (unsigned_digits ''-2000'') \<le> max_str_digits"
    "is_decimal ''+5'' \<and> length (unsigned_digits ''+5'') \<le> max_str_digits"
    by (simp_all add: is_decimal_def unsigned_digits_def is_digit_def max_str_digits_def)
  moreover have "decimal_value ''007'' = 7" "decimal_value ''-2000'' = - 2000"
    "decimal_value ''+5'' = 5"
    by (simp_all add: decimal_value_def unsigned_digits_def dec_value_def digit_val_def)
  ultimately show ?thesis
    using SumOctets_extract_property_unvalidated [of "[''007'', ''-2000'', ''+5'']" ascii_only]
    by simp
qed

subsection \<open>Counting one bits\<close>

lemma finite_bits_nat: "finite {i. bit (n::nat) i}"
proof -
  have "{i. bit n i} \<subseteq> {..n}"
  proof
    fix i assume "i \<in> {i. bit n i}"
    then have "odd (n div 2 ^ i)" by (simp add: bit_iff_odd)
    then have "\<not> n < 2 ^ i" by (auto simp: div_less)
    moreover have "i < 2 ^ i" by (rule less_exp)
    ultimately have "i \<le> n" by linarith
    then show "i \<in> {..n}" by simp
  qed
  then show ?thesis by (rule finite_subset) simp
qed

lemma bits_nat_step:
  "{i. bit (n::nat) i} = (if odd n then {0} else {}) \<union> Suc ` {i. bit (n div 2) i}"
proof (rule set_eqI)
  fix i
  show "i \<in> {i. bit n i} \<longleftrightarrow> i \<in> (if odd n then {0} else {}) \<union> Suc ` {i. bit (n div 2) i}"
    by (cases i) (auto simp: bit_0 bit_Suc)
qed

lemma card_bits_nat_step:
  "card {i. bit (n::nat) i} = n mod 2 + card {i. bit (n div 2) i}"
proof -
  have f: "finite (Suc ` {i. bit (n div 2) i})" by (simp add: finite_bits_nat)
  have c: "card (Suc ` {i. bit (n div 2) i}) = card {i. bit (n div 2) i}"
    by (simp add: card_image)
  show ?thesis
  proof (cases "odd n")
    case True
    then have "n mod 2 = 1" by (simp add: odd_iff_mod_2_eq_one)
    moreover have "card ({0} \<union> Suc ` {i. bit (n div 2) i}) = Suc (card (Suc ` {i. bit (n div 2) i}))"
      using f by (subst card_Un_disjoint) auto
    ultimately show ?thesis using True c by (subst bits_nat_step) simp
  next
    case False
    then have "n mod 2 = 0" by simp
    then show ?thesis using False c by (subst bits_nat_step) simp
  qed
qed

lemma digit_char_eq_one: "d < 2 \<Longrightarrow> digit_char d = CHR ''1'' \<longleftrightarrow> d = 1"
proof -
  assume "d < 2"
  then have "d = 0 \<or> d = 1" by auto
  moreover have "digit_char 0 \<noteq> CHR ''1''" "digit_char 1 = CHR ''1''" by code_simp+
  ultimately show ?thesis by auto
qed

lemma count_ones_bin_nat:
  "length (filter (\<lambda>x. x = CHR ''1'') (bin_nat n)) = card {i. bit n i}"
proof (induction n rule: bin_nat.induct)
  case (1 n)
  show ?case
  proof (cases "n < 2")
    case True
    then have "n div 2 = 0" by simp
    moreover have "Collect (bit (0::nat)) = {}" by auto
    ultimately have "card {i. bit (n div 2) i} = 0" by (simp only: card.empty)
    then have "card {i. bit n i} = n mod 2" by (subst card_bits_nat_step) (simp only: add_0_right)
    then show ?thesis
      using True by (subst bin_nat.simps) (auto simp: digit_char_eq_one)
  next
    case False
    have "length (filter (\<lambda>x. x = CHR ''1'') [digit_char (n mod 2)]) = n mod 2"
      using digit_char_eq_one [of "n mod 2"] by (cases "n mod 2 = 1") auto
    then show ?thesis
      using False 1 by (subst bin_nat.simps) (simp add: card_bits_nat_step [of n])
  qed
qed

lemma str_count_py_bin:
  "0 \<le> n \<Longrightarrow> str_count (py_bin n) CHR ''1'' = int (card {i. bit (nat n) i})"
  by (simp add: str_count_def py_bin_def count_ones_bin_nat)

lemma card_bits_word32:
  assumes "0 \<le> n" "n < 2 ^ 32"
  shows "card {i. bit (word_of_int n :: 32 word) i} = card {i. bit (nat n) i}"
proof -
  have "bit (word_of_int n :: 32 word) i \<longleftrightarrow> bit (nat n) i" for i
  proof (cases "i < 32")
    case True
    then show ?thesis using assms(1) by (simp add: bit_word_of_int_iff bit_nat_iff)
  next
    case False
    then have "(2::int) ^ 32 \<le> 2 ^ i" by (intro power_increasing) auto
    then have "n < 2 ^ i" using assms(2) by linarith
    then have "nat n < 2 ^ i" using assms(1) by (simp add: nat_less_iff)
    then have "\<not> bit (nat n) i" by (simp add: bit_iff_odd)
    moreover have "\<not> bit (word_of_int n :: 32 word) i"
      using False by (simp add: bit_word_of_int_iff)
    ultimately show ?thesis by simp
  qed
  then show ?thesis by simp
qed

lemma card_bits_word32_le: "card {i. bit (w :: 32 word) i} \<le> 32"
proof -
  have "{i. bit w i} \<subseteq> {..<32}" by (auto dest: bit_imp_le_length)
  then have "card {i. bit w i} \<le> card {..<(32::nat)}" by (intro card_mono) auto
  then show ?thesis by simp
qed

subsection \<open>Dotted-decimal text and \<open>inet_aton\<close>\<close>

lemma digit_char_neq_zero: "0 < d \<Longrightarrow> d < 10 \<Longrightarrow> digit_char d \<noteq> CHR ''0''"
proof
  assume "0 < d" "d < 10" "digit_char d = CHR ''0''"
  then have "(of_char (digit_char d) :: nat) = of_char CHR ''0''" by simp
  then show False using \<open>0 < d\<close> \<open>d < 10\<close> by (simp add: digit_char_def)
qed

lemma hd_str_nat: "0 < n \<Longrightarrow> hd (str_nat n) \<noteq> CHR ''0''"
proof (induction n rule: str_nat.induct)
  case (1 n)
  show ?case
  proof (cases "n < 10")
    case True
    then show ?thesis using 1(2) by (subst str_nat.simps) (simp add: digit_char_neq_zero)
  next
    case False
    then have "0 < n div 10" by simp
    then have "hd (str_nat (n div 10)) \<noteq> CHR ''0''" using 1(1) False by simp
    then show ?thesis using False by (subst str_nat.simps) (simp add: str_nat_not_Nil)
  qed
qed

lemma str_nat_zero: "str_nat 0 = ''0''"
  by (simp add: eval_text)

lemma canonical_octet_py_str:
  assumes "0 \<le> a" "a \<le> 255"
  shows "canonical_octet (py_str a) = Some (word_of_int a)"
proof -
  have p: "py_str a = str_nat (nat a)" using assms(1) by (simp add: py_str_def)
  have l: "length (str_nat (nat a)) \<le> 3" using assms by (intro length_str_nat) simp
  have h: "1 < length (str_nat (nat a)) \<longrightarrow> hd (str_nat (nat a)) \<noteq> CHR ''0''"
  proof (cases "nat a = 0")
    case True
    then show ?thesis by (simp add: str_nat_zero)
  next
    case False
    then show ?thesis by (simp add: hd_str_nat)
  qed
  have v: "dec_value (str_nat (nat a)) \<le> 255" using assms by (simp add: dec_value_str_nat)
  have w: "(word_of_nat (nat a) :: 8 word) = word_of_int a" using assms(1) by simp
  show ?thesis
    using l h v w by (simp add: canonical_octet_def p str_nat_not_Nil str_nat_digits dec_value_str_nat)
qed

lemma inet_aton_dotted:
  assumes "0 \<le> a \<and> a \<le> 255" "0 \<le> b \<and> b \<le> 255" "0 \<le> c \<and> c \<le> 255" "0 \<le> d \<and> d \<le> 255"
  shows "inet_aton lc (dotted a b c d)
         = Inr [word_of_int a, word_of_int b, word_of_int c, word_of_int d]"
  using assms by (simp add: inet_aton_def str_split_dotted canonical_octet_py_str)

lemma uint_octet: "0 \<le> a \<Longrightarrow> a \<le> 255 \<Longrightarrow> uint (word_of_int a :: 8 word) = a"
  by (simp add: uint_word_of_int_eq take_bit_int_eq_self)

lemma from_bytes_octets:
  assumes "0 \<le> a \<and> a \<le> 255" "0 \<le> b \<and> b \<le> 255" "0 \<le> c \<and> c \<le> 255" "0 \<le> d \<and> d \<le> 255"
  shows "from_bytes [word_of_int a, word_of_int b, word_of_int c, word_of_int d]
         = a * 2 ^ 24 + b * 2 ^ 16 + c * 2 ^ 8 + d"
  using assms by (simp add: from_bytes_def uint_octet)

lemma CountOnes_extract_property_dotted:
  assumes "0 \<le> a \<and> a \<le> 255" "0 \<le> b \<and> b \<le> 255" "0 \<le> c \<and> c \<le> 255" "0 \<le> d \<and> d \<le> 255"
  shows "CountOnes_extract_property lc (dotted a b c d)
         = Inr (int (card {i. bit (word_of_int (a * 2 ^ 24 + b * 2 ^ 16 + c * 2 ^ 8 + d) :: 32 word) i}))"
proof -
  let ?n = "a * 2 ^ 24 + b * 2 ^ 16 + c * 2 ^ 8 + d"
  have lo: "0 \<le> ?n" using assms by simp
  have hi: "?n < 2 ^ 32" using assms by simp
  have "CountOnes_extract_property lc (dotted a b c d) = Inr (str_count (py_bin ?n) CHR ''1'')"
    using assms by (simp add: CountOnes_extract_property_def inet_aton_dotted from_bytes_octets)
  also have "str_count (py_bin ?n) CHR ''1'' = int (card {i. bit (nat ?n) i})"
    using lo by (rule str_count_py_bin)
  also have "card {i. bit (nat ?n) i} = card {i. bit (word_of_int ?n :: 32 word) i}"
    using lo hi by (rule card_bits_word32 [symmetric])
  finally show ?thesis .
qed

text \<open>
  C9. For every valid dotted-quad address, with octets \<open>a\<close>, \<open>b\<close>, \<open>c\<close>, \<open>d\<close> in
  \<open>[0, 255]\<close>, \<open>CountOnesExtractor.extract_property\<close> returns the number of one bits of the
  32-bit big-endian value of the address, which lies in \<open>[0, 32]\<close>, whatever the platform;
  \<open>255.255.255.255\<close> gives 32 and \<open>0.0.0.0\<close> gives 0.
\<close>

theorem CountOnes_extract_property_valid:
  assumes "0 \<le> a \<and> a \<le> 255" and "0 \<le> b \<and> b \<le> 255"
    and "0 \<le> c \<and> c \<le> 255" and "0 \<le> d \<and> d \<le> 255"
  shows "CountOnes_extract_property lc (dotted a b c d)
           = Inr (int (card {i. bit (word_of_int (a * 2 ^ 24 + b * 2 ^ 16 + c * 2 ^ 8 + d)
                                      :: 32 word) i}))
         \<and> card {i. bit (word_of_int (a * 2 ^ 24 + b * 2 ^ 16 + c * 2 ^ 8 + d) :: 32 word) i}
             \<le> 32
         \<and> CountOnes_extract_property lc ''255.255.255.255'' = Inr 32
         \<and> CountOnes_extract_property lc ''0.0.0.0'' = Inr 0"
proof -
  have t1: "dotted 255 255 255 255 = ''255.255.255.255''" by (simp add: eval_text)
  have t0: "dotted 0 0 0 0 = ''0.0.0.0''" by (simp add: eval_text)
  have c1: "str_count (py_bin 4294967295) CHR ''1'' = 32" by (simp add: eval_count)
  have c0: "str_count (py_bin 0) CHR ''1'' = 0" by (simp add: eval_count)
  have "CountOnes_extract_property lc (dotted 255 255 255 255) = Inr 32"
    using c1 by (simp add: CountOnes_extract_property_def inet_aton_dotted from_bytes_def)
  moreover have "CountOnes_extract_property lc (dotted 0 0 0 0) = Inr 0"
    using c0 by (simp add: CountOnes_extract_property_def inet_aton_dotted from_bytes_def)
  ultimately show ?thesis
    using CountOnes_extract_property_dotted [OF assms] card_bits_word32_le t1 t0 by simp
qed

theorem CountOnes_extract_property_valid_witness:
  "CountOnes_extract_property (\<lambda>s. None) ''192.168.0.1'' = Inr 6"
proof -
  have t: "dotted 192 168 0 1 = ''192.168.0.1''" by (simp add: eval_text)
  have "card {i. bit (3232235521 :: 32 word) i} = card {i. bit (3232235521 :: nat) i}"
    using card_bits_word32 [of 3232235521] by simp
  also have "int \<dots> = str_count (py_bin 3232235521) CHR ''1''"
    using str_count_py_bin [of 3232235521] by simp
  also have "\<dots> = 6" by (simp add: eval_count)
  finally have "int (card {i. bit (3232235521 :: 32 word) i}) = 6" .
  then show ?thesis
    using CountOnes_extract_property_valid [of 192 168 0 1 "\<lambda>s. None"] t by simp
qed

subsection \<open>The rejection-sampling loops\<close>

lemma SumOctets_loop_returns:
  "SumOctets_attempt dr t (pos + 3 * k) = Some r \<Longrightarrow>
   \<forall>j<k. SumOctets_attempt dr t (pos + 3 * j) = None \<Longrightarrow>
   SumOctets_generate_candidate dr t pos = Some (r, pos + 3 * k + 3)"
proof (induction k arbitrary: pos)
  case 0
  then show ?case by (subst SumOctets_generate_candidate.simps) simp
next
  case (Suc k)
  from Suc.prems(2) have first: "SumOctets_attempt dr t pos = None" by force
  have later: "\<forall>j<k. SumOctets_attempt dr t (pos + 3 + 3 * j) = None"
  proof (intro allI impI)
    fix j assume "j < k"
    then have "SumOctets_attempt dr t (pos + 3 * Suc j) = None"
      using Suc.prems(2) [rule_format, of "Suc j"] by simp
    then show "SumOctets_attempt dr t (pos + 3 + 3 * j) = None" by (simp add: add.assoc)
  qed
  have "SumOctets_attempt dr t (pos + 3 + 3 * k) = Some r"
    using Suc.prems(1) by (simp add: add.assoc)
  then have "SumOctets_generate_candidate dr t (pos + 3) = Some (r, pos + 3 + 3 * k + 3)"
    using later by (rule Suc.IH)
  then show ?case
    using first by (subst SumOctets_generate_candidate.simps) (simp add: add.assoc)
qed

lemma SumOctets_loop_sound:
  assumes "SumOctets_generate_candidate dr t pos = Some y"
  shows "\<exists>k. SumOctets_attempt dr t (pos + 3 * k) = Some (fst y) \<and> snd y = pos + 3 * k + 3"
proof (rule SumOctets_generate_candidate.raw_induct
    [where P = "\<lambda>dr t pos y. \<exists>k. SumOctets_attempt dr t (pos + 3 * k) = Some (fst y)
                                  \<and> snd y = pos + 3 * k + 3", OF _ assms])
  fix loop :: "(nat \<Rightarrow> nat) \<Rightarrow> int \<Rightarrow> nat \<Rightarrow> ((error + string) \<times> nat) option"
    and dr t pos y
  assume IH: "\<And>dr t pos y. loop dr t pos = Some y \<Longrightarrow>
      \<exists>k. SumOctets_attempt dr t (pos + 3 * k) = Some (fst y) \<and> snd y = pos + 3 * k + 3"
    and body: "(case SumOctets_attempt dr t pos of
                  None \<Rightarrow> loop dr t (pos + 3)
                | Some candidate \<Rightarrow> Some (candidate, pos + 3)) = Some y"
  show "\<exists>k. SumOctets_attempt dr t (pos + 3 * k) = Some (fst y) \<and> snd y = pos + 3 * k + 3"
  proof (cases "SumOctets_attempt dr t pos")
    case None
    then have "loop dr t (pos + 3) = Some y" using body by simp
    then obtain k where "SumOctets_attempt dr t (pos + 3 + 3 * k) = Some (fst y)"
      and "snd y = pos + 3 + 3 * k + 3"
      using IH by blast
    then have "SumOctets_attempt dr t (pos + 3 * Suc k) = Some (fst y) \<and> snd y = pos + 3 * Suc k + 3"
      by (simp add: add.assoc)
    then show ?thesis by blast
  next
    case (Some r)
    then have "SumOctets_attempt dr t (pos + 3 * 0) = Some (fst y) \<and> snd y = pos + 3 * 0 + 3"
      using body by auto
    then show ?thesis by blast
  qed
qed

lemma SumOctets_loop_iff:
  "(\<exists>y. SumOctets_generate_candidate dr t pos = Some y)
   \<longleftrightarrow> (\<exists>k. SumOctets_attempt dr t (pos + 3 * k) \<noteq> None)"
proof
  assume "\<exists>y. SumOctets_generate_candidate dr t pos = Some y"
  then show "\<exists>k. SumOctets_attempt dr t (pos + 3 * k) \<noteq> None"
    using SumOctets_loop_sound by fastforce
next
  assume ex: "\<exists>k. SumOctets_attempt dr t (pos + 3 * k) \<noteq> None"
  define k where "k = (LEAST k. SumOctets_attempt dr t (pos + 3 * k) \<noteq> None)"
  have "SumOctets_attempt dr t (pos + 3 * k) \<noteq> None"
    unfolding k_def using ex by (rule LeastI_ex)
  then obtain r where r: "SumOctets_attempt dr t (pos + 3 * k) = Some r" by blast
  have "\<forall>j<k. SumOctets_attempt dr t (pos + 3 * j) = None"
    unfolding k_def using not_less_Least by blast
  with r have "SumOctets_generate_candidate dr t pos = Some (r, pos + 3 * k + 3)"
    by (rule SumOctets_loop_returns)
  then show "\<exists>y. SumOctets_generate_candidate dr t pos = Some y" by blast
qed

lemma CountOnes_loop_returns:
  "CountOnes_attempt dr t (pos + k) = Some r \<Longrightarrow>
   \<forall>j<k. CountOnes_attempt dr t (pos + j) = None \<Longrightarrow>
   CountOnes_generate_candidate dr t pos = Some (r, pos + k + 1)"
proof (induction k arbitrary: pos)
  case 0
  then show ?case by (subst CountOnes_generate_candidate.simps) simp
next
  case (Suc k)
  from Suc.prems(2) have first: "CountOnes_attempt dr t pos = None" by force
  have later: "\<forall>j<k. CountOnes_attempt dr t (pos + 1 + j) = None"
  proof (intro allI impI)
    fix j assume "j < k"
    then have "CountOnes_attempt dr t (pos + Suc j) = None"
      using Suc.prems(2) [rule_format, of "Suc j"] by simp
    then show "CountOnes_attempt dr t (pos + 1 + j) = None" by simp
  qed
  have "CountOnes_attempt dr t (pos + 1 + k) = Some r"
    using Suc.prems(1) by simp
  then have "CountOnes_generate_candidate dr t (pos + 1) = Some (r, pos + 1 + k + 1)"
    using later by (rule Suc.IH)
  then show ?case
    using first by (subst CountOnes_generate_candidate.simps) simp
qed

lemma CountOnes_loop_sound:
  assumes "CountOnes_generate_candidate dr t pos = Some y"
  shows "\<exists>k. CountOnes_attempt dr t (pos + k) = Some (fst y) \<and> snd y = pos + k + 1"
proof (rule CountOnes_generate_candidate.raw_induct
    [where P = "\<lambda>dr t pos y. \<exists>k. CountOnes_attempt dr t (pos + k) = Some (fst y)
                                  \<and> snd y = pos + k + 1", OF _ assms])
  fix loop :: "(nat \<Rightarrow> nat) \<Rightarrow> int \<Rightarrow> nat \<Rightarrow> ((error + string) \<times> nat) option"
    and dr t pos y
  assume IH: "\<And>dr t pos y. loop dr t pos = Some y \<Longrightarrow>
      \<exists>k. CountOnes_attempt dr t (pos + k) = Some (fst y) \<and> snd y = pos + k + 1"
    and body: "(case CountOnes_attempt dr t pos of
                  None \<Rightarrow> loop dr t (pos + 1)
                | Some candidate \<Rightarrow> Some (candidate, pos + 1)) = Some y"
  show "\<exists>k. CountOnes_attempt dr t (pos + k) = Some (fst y) \<and> snd y = pos + k + 1"
  proof (cases "CountOnes_attempt dr t pos")
    case None
    then have "loop dr t (pos + 1) = Some y" using body by simp
    then obtain k where "CountOnes_attempt dr t (pos + 1 + k) = Some (fst y)"
      and "snd y = pos + 1 + k + 1"
      using IH by blast
    then have "CountOnes_attempt dr t (pos + Suc k) = Some (fst y) \<and> snd y = pos + Suc k + 1"
      by simp
    then show ?thesis by blast
  next
    case (Some r)
    then have "CountOnes_attempt dr t (pos + 0) = Some (fst y) \<and> snd y = pos + 0 + 1"
      using body by auto
    then show ?thesis by blast
  qed
qed

lemma CountOnes_loop_iff:
  "(\<exists>y. CountOnes_generate_candidate dr t pos = Some y)
   \<longleftrightarrow> (\<exists>k. CountOnes_attempt dr t (pos + k) \<noteq> None)"
proof
  assume "\<exists>y. CountOnes_generate_candidate dr t pos = Some y"
  then show "\<exists>k. CountOnes_attempt dr t (pos + k) \<noteq> None"
    using CountOnes_loop_sound by fastforce
next
  assume ex: "\<exists>k. CountOnes_attempt dr t (pos + k) \<noteq> None"
  define k where "k = (LEAST k. CountOnes_attempt dr t (pos + k) \<noteq> None)"
  have "CountOnes_attempt dr t (pos + k) \<noteq> None"
    unfolding k_def using ex by (rule LeastI_ex)
  then obtain r where r: "CountOnes_attempt dr t (pos + k) = Some r" by blast
  have "\<forall>j<k. CountOnes_attempt dr t (pos + j) = None"
    unfolding k_def using not_less_Least by blast
  with r have "CountOnes_generate_candidate dr t pos = Some (r, pos + k + 1)"
    by (rule CountOnes_loop_returns)
  then show "\<exists>y. CountOnes_generate_candidate dr t pos = Some y" by blast
qed

subsection \<open>What one pass of a loop returns\<close>

lemma randint_from_zero: "0 \<le> hi \<Longrightarrow> fst (randint dr 0 hi pos) = int (dr pos mod nat (hi + 1))"
  by (simp add: randint_def)

lemma SumOctets_attempt_Some:
  assumes "SumOctets_attempt dr t pos = Some r"
  shows "\<exists>a b c d. (0 \<le> a \<and> a \<le> 255) \<and> (0 \<le> b \<and> b \<le> 255) \<and> (0 \<le> c \<and> c \<le> 255)
           \<and> (0 \<le> d \<and> d \<le> 255) \<and> r = Inr (dotted a b c d) \<and> a + b + c + d = t"
proof -
  define a where "a = int (dr pos mod 256)"
  define b where "b = int (dr (pos + 1) mod 256)"
  define c where "c = int (dr (pos + 2) mod 256)"
  define d where "d = t - (a + b + c)"
  have abc: "0 \<le> a \<and> a \<le> 255" "0 \<le> b \<and> b \<le> 255" "0 \<le> c \<and> c \<le> 255"
    by (simp_all add: a_def b_def c_def)
  have att: "SumOctets_attempt dr t pos
             = (if 0 \<le> d \<and> d \<le> 255 then Some (Inr (dotted a b c d)) else None)"
    by (simp add: SumOctets_attempt_def randint_from_zero a_def b_def c_def d_def Let_def)
  with assms have "0 \<le> d \<and> d \<le> 255" "r = Inr (dotted a b c d)"
    by (auto split: if_splits)
  moreover have "a + b + c + d = t" by (simp add: d_def)
  ultimately show ?thesis using abc by blast
qed

lemma upt_4: "[0..<4] = [0, 1, 2, 3]"
  by (simp add: upt_rec)

lemma to_bytes_4:
  "0 \<le> n \<Longrightarrow> n < 2 ^ 32 \<Longrightarrow>
   to_bytes n 4 = Inr [word_of_int (n div 2 ^ 24), word_of_int (n div 2 ^ 16),
                       word_of_int (n div 2 ^ 8), word_of_int n]"
  by (simp add: to_bytes_def upt_4)

lemma uint_byte: "uint (word_of_int k :: 8 word) = k mod 256"
  by (simp add: uint_word_of_int_eq take_bit_eq_mod)

lemma bytes_of_int32:
  fixes n :: int
  assumes "0 \<le> n" "n < 2 ^ 32"
  shows "(n div 2 ^ 24) mod 256 * 2 ^ 24 + (n div 2 ^ 16) mod 256 * 2 ^ 16
         + (n div 2 ^ 8) mod 256 * 2 ^ 8 + n mod 256 = n"
proof -
  define q1 where "q1 = n div 256"
  define q2 where "q2 = q1 div 256"
  define q3 where "q3 = q2 div 256"
  have d2: "n div 65536 = q2" by (simp add: q2_def q1_def div_mult2_eq [symmetric])
  have d3: "n div 16777216 = q3"
    by (simp add: q3_def q2_def q1_def div_mult2_eq [symmetric])
  have "0 \<le> q3" "q3 < 256" using assms by (simp_all add: d3 [symmetric])
  then have e: "q3 mod 256 = q3" by simp
  have s0: "n = q1 * 256 + n mod 256" by (simp add: q1_def)
  have s1: "q1 = q2 * 256 + q1 mod 256" by (simp add: q2_def)
  have s2: "q2 = q3 * 256 + q2 mod 256" by (simp add: q3_def)
  have "q3 * 16777216 + q2 mod 256 * 65536 + q1 mod 256 * 256 + n mod 256 = n"
    using s0 s1 s2 by linarith
  then show ?thesis by (simp add: d2 d3 e q1_def [symmetric])
qed

lemma CountOnes_attempt_eq:
  "CountOnes_attempt dr t pos
   = (let n = int (dr pos mod 2 ^ 32)
      in if str_count (py_bin n) CHR ''1'' = t
         then Some (Inr (dotted ((n div 2 ^ 24) mod 256) ((n div 2 ^ 16) mod 256)
                                ((n div 2 ^ 8) mod 256) (n mod 256)))
         else None)"
proof -
  define n where "n = int (dr pos mod 2 ^ 32)"
  have r: "0 \<le> n" "n < 2 ^ 32" by (simp_all add: n_def)
  have f: "fst (randint dr 0 (2 ^ 32 - 1) pos) = n"
    by (simp add: randint_def n_def)
  show ?thesis
    unfolding CountOnes_attempt_def f Let_def n_def [symmetric]
    using r by (simp add: to_bytes_4 inet_ntoa_def uint_byte)
qed

lemma CountOnes_attempt_Some:
  assumes "CountOnes_attempt dr t pos = Some r"
  shows "\<exists>a b c d. (0 \<le> a \<and> a \<le> 255) \<and> (0 \<le> b \<and> b \<le> 255) \<and> (0 \<le> c \<and> c \<le> 255)
           \<and> (0 \<le> d \<and> d \<le> 255) \<and> r = Inr (dotted a b c d)
           \<and> str_count (py_bin (a * 2 ^ 24 + b * 2 ^ 16 + c * 2 ^ 8 + d)) CHR ''1'' = t"
proof -
  define n where "n = int (dr pos mod 2 ^ 32)"
  define a where "a = (n div 2 ^ 24) mod 256"
  define b where "b = (n div 2 ^ 16) mod 256"
  define c where "c = (n div 2 ^ 8) mod 256"
  define d where "d = n mod 256"
  have r: "0 \<le> n" "n < 2 ^ 32" by (simp_all add: n_def)
  have rng: "0 \<le> a \<and> a \<le> 255" "0 \<le> b \<and> b \<le> 255" "0 \<le> c \<and> c \<le> 255" "0 \<le> d \<and> d \<le> 255"
    by (simp_all add: a_def b_def c_def d_def)
  have val: "a * 2 ^ 24 + b * 2 ^ 16 + c * 2 ^ 8 + d = n"
    unfolding a_def b_def c_def d_def using r by (rule bytes_of_int32)
  have "CountOnes_attempt dr t pos
        = (if str_count (py_bin n) CHR ''1'' = t then Some (Inr (dotted a b c d)) else None)"
    by (simp add: CountOnes_attempt_eq Let_def n_def a_def b_def c_def d_def)
  with assms have "str_count (py_bin n) CHR ''1'' = t" "r = Inr (dotted a b c d)"
    by (auto split: if_splits)
  then show ?thesis using rng val by blast
qed

lemma CountOnes_extract_property_bin:
  assumes "0 \<le> a \<and> a \<le> 255" "0 \<le> b \<and> b \<le> 255" "0 \<le> c \<and> c \<le> 255" "0 \<le> d \<and> d \<le> 255"
  shows "CountOnes_extract_property lc (dotted a b c d)
         = Inr (str_count (py_bin (a * 2 ^ 24 + b * 2 ^ 16 + c * 2 ^ 8 + d)) CHR ''1'')"
  using assms by (simp add: CountOnes_extract_property_def inet_aton_dotted from_bytes_octets)

lemma generate_candidate_sound:
  assumes "generate_candidate pf ex t pos = Some (r, pos')"
  shows "\<exists>a b c d. (0 \<le> a \<and> a \<le> 255) \<and> (0 \<le> b \<and> b \<le> 255) \<and> (0 \<le> c \<and> c \<le> 255)
           \<and> (0 \<le> d \<and> d \<le> 255) \<and> r = Inr (dotted a b c d)
           \<and> extract_property pf ex (dotted a b c d) = Inr t"
proof (cases ex)
  case SumOctetsExtractor
  then have "SumOctets_generate_candidate (draws pf) t pos = Some (r, pos')"
    using assms by simp
  then obtain k where "SumOctets_attempt (draws pf) t (pos + 3 * k) = Some r"
    using SumOctets_loop_sound by fastforce
  then obtain a b c d where "0 \<le> a \<and> a \<le> 255" "0 \<le> b \<and> b \<le> 255" "0 \<le> c \<and> c \<le> 255"
    "0 \<le> d \<and> d \<le> 255" "r = Inr (dotted a b c d)" "a + b + c + d = t"
    using SumOctets_attempt_Some by blast
  then show ?thesis
    using SumOctetsExtractor SumOctets_extract_property_dotted [of a b c d "unicode_int pf"] by auto
next
  case CountOnesExtractor
  then have "CountOnes_generate_candidate (draws pf) t pos = Some (r, pos')"
    using assms by simp
  then obtain k where "CountOnes_attempt (draws pf) t (pos + k) = Some r"
    using CountOnes_loop_sound by fastforce
  then obtain a b c d where o: "0 \<le> a \<and> a \<le> 255" "0 \<le> b \<and> b \<le> 255" "0 \<le> c \<and> c \<le> 255"
    "0 \<le> d \<and> d \<le> 255" and r: "r = Inr (dotted a b c d)"
    and p: "str_count (py_bin (a * 2 ^ 24 + b * 2 ^ 16 + c * 2 ^ 8 + d)) CHR ''1'' = t"
    using CountOnes_attempt_Some by blast
  have "extract_property pf ex (dotted a b c d) = Inr t"
    using CountOnesExtractor CountOnes_extract_property_bin [OF o, of "libc pf"] p by simp
  then show ?thesis using o r by blast
qed

subsection \<open>Random sources\<close>

text \<open>
  Two sources in which every block occurs: the counter, read one draw at a time from any
  position, and the base-256 digits of the counter, read three draws at a time from 0.
\<close>

lemma base256_mod: "x < 256 \<Longrightarrow> (x + 256 * y) mod 256 = (x::nat)"
  by simp

lemma base256_div: "x < 256 \<Longrightarrow> (x + 256 * y) div 256 = (y::nat)"
  by simp

lemma every_block_occurs_counter_draws:
  "every_block_occurs counter_draws 0 (2 ^ 32 - 1) 1 pos"
  unfolding every_block_occurs_def
proof (intro allI impI)
  fix vs :: "int list"
  assume h: "length vs = 1 \<and> (\<forall>v\<in>set vs. 0 \<le> v \<and> v \<le> 2 ^ 32 - 1)"
  then obtain v where vs: "vs = [v]" by (cases vs) auto
  with h have v: "0 \<le> v" "v < 2 ^ 32" by auto
  define k where "k = nat v + (2 ^ 32 - 1) * pos"
  have "pos + 1 * k + 0 = nat v + 2 ^ 32 * pos" by (simp add: k_def algebra_simps)
  then have "counter_draws (pos + 1 * k + 0) mod 2 ^ 32 = nat v mod 2 ^ 32"
    by (simp add: counter_draws_def)
  also have "\<dots> = nat v" using v by simp
  finally have "fst (randint counter_draws 0 (2 ^ 32 - 1) (pos + 1 * k + 0)) = vs ! 0"
    using v by (simp add: randint_def vs)
  then show "\<exists>k. \<forall>j<1. fst (randint counter_draws 0 (2 ^ 32 - 1) (pos + 1 * k + j)) = vs ! j"
    by (intro exI [of _ k]) simp
qed

lemma every_block_occurs_digit_draws:
  "every_block_occurs digit_draws 0 255 3 0"
  unfolding every_block_occurs_def
proof (intro allI impI)
  fix vs :: "int list"
  assume h: "length vs = 3 \<and> (\<forall>v\<in>set vs. 0 \<le> v \<and> v \<le> 255)"
  then obtain a b c where vs: "vs = [a, b, c]"
    by (cases vs; cases "tl vs"; cases "tl (tl vs)") auto
  with h have r: "0 \<le> a \<and> a \<le> 255" "0 \<le> b \<and> b \<le> 255" "0 \<le> c \<and> c \<le> 255" by auto
  define k where "k = nat a + 256 * nat b + 65536 * nat c"
  have lt: "nat a < 256" "nat b < 256" "nat c < 256" using r by linarith+
  have p: "(3 * k + 0) div 3 = k" "(3 * k + 1) div 3 = k" "(3 * k + 2) div 3 = k"
    "(3 * k + 0) mod 3 = 0" "(3 * k + 1) mod 3 = 1" "(3 * k + 2) mod 3 = 2"
    by presburger+
  have q: "k = nat a + 256 * (nat b + 256 * nat c)" by (simp add: k_def)
  have k0: "k mod 256 = nat a" unfolding q using lt(1) by (rule base256_mod)
  have k1: "k div 256 = nat b + 256 * nat c" unfolding q using lt(1) by (rule base256_div)
  have k2: "k div 256 ^ 2 = nat c"
  proof -
    have "k div 256 ^ 2 = (k div 256) div 256" by (simp add: div_mult2_eq power2_eq_square)
    also have "\<dots> = nat c" unfolding k1 using lt(2) by (rule base256_div)
    finally show ?thesis .
  qed
  have d0: "digit_draws (3 * k + 0) mod 256 = nat a"
    unfolding digit_draws_def p using k0 by simp
  have d1: "digit_draws (3 * k + 1) mod 256 = nat b"
    unfolding digit_draws_def p using k1 lt(2) by (simp add: base256_mod)
  have d2: "digit_draws (3 * k + 2) mod 256 = nat c"
    unfolding digit_draws_def p using k2 lt by simp
  have "fst (randint digit_draws 0 255 (0 + 3 * k + j)) = vs ! j" if "j < 3" for j
  proof -
    from that consider "j = 0" | "j = 1" | "j = 2" by linarith
    then show ?thesis
    proof cases
      case 1 then show ?thesis using d0 r by (simp add: randint_def vs)
    next
      case 2 then show ?thesis using d1 r by (simp add: randint_def vs)
    next
      case 3 then show ?thesis using d2 r by (simp add: randint_def vs)
    qed
  qed
  then show "\<exists>k. \<forall>j<3. fst (randint digit_draws 0 255 (0 + 3 * k + j)) = vs ! j" by blast
qed

subsection \<open>Targets that some pass accepts\<close>

lemma card_bits_mask: "card {i. bit (2 ^ k - 1 :: nat) i} = k"
proof -
  have "(2 ^ k - 1 :: nat) = mask k" by (simp add: mask_eq_exp_minus_1)
  moreover have "{i. bit (mask k :: nat) i} = {..<k}"
    by (auto simp: bit_mask_iff)
  ultimately show ?thesis by simp
qed

lemma SumOctets_attempt_occurs:
  assumes "0 \<le> t" "t \<le> 1020" "every_block_occurs dr 0 255 3 pos"
  shows "\<exists>k. SumOctets_attempt dr t (pos + 3 * k) \<noteq> None"
proof -
  define a where "a = min t 255"
  define b where "b = min (t - a) 255"
  define c where "c = min (t - a - b) 255"
  have r: "0 \<le> a \<and> a \<le> 255" "0 \<le> b \<and> b \<le> 255" "0 \<le> c \<and> c \<le> 255"
    using assms(1,2) by (auto simp: a_def b_def c_def)
  have d: "0 \<le> t - (a + b + c) \<and> t - (a + b + c) \<le> 255"
    using assms(1,2) by (auto simp: a_def b_def c_def)
  have "length [a, b, c] = 3 \<and> (\<forall>v\<in>set [a, b, c]. 0 \<le> v \<and> v \<le> 255)" using r by simp
  then obtain k where k: "\<forall>j<3. fst (randint dr 0 255 (pos + 3 * k + j)) = [a, b, c] ! j"
    using assms(3) unfolding every_block_occurs_def by blast
  have v: "fst (randint dr 0 255 (pos + 3 * k)) = a"
    "fst (randint dr 0 255 (pos + 3 * k + 1)) = b"
    "fst (randint dr 0 255 (pos + 3 * k + 2)) = c"
    using k [rule_format, of 0] k [rule_format, of 1] k [rule_format, of 2] by simp_all
  have "SumOctets_attempt dr t (pos + 3 * k) = Some (Inr (dotted a b c (t - (a + b + c))))"
    unfolding SumOctets_attempt_def v Let_def using d by simp
  then show ?thesis by auto
qed

lemma CountOnes_attempt_occurs:
  assumes "0 \<le> t" "t \<le> 32" "every_block_occurs dr 0 (2 ^ 32 - 1) 1 pos"
  shows "\<exists>k. CountOnes_attempt dr t (pos + k) \<noteq> None"
proof -
  define m where "m = nat t"
  define n :: nat where "n = 2 ^ m - 1"
  have "m \<le> 32" using assms by (simp add: m_def)
  then have "(2::nat) ^ m \<le> 2 ^ 32" by (intro power_increasing) auto
  then have "n < 2 ^ 32" unfolding n_def by (simp add: less_le_trans [rotated])
  then have "int n < int (2 ^ 32)" by (simp only: of_nat_less_iff)
  then have n: "int n \<le> 2 ^ 32 - 1" by simp
  have "length [int n] = 1 \<and> (\<forall>v\<in>set [int n]. 0 \<le> v \<and> v \<le> 2 ^ 32 - 1)" using n by simp
  then obtain k where "\<forall>j<1. fst (randint dr 0 (2 ^ 32 - 1) (pos + 1 * k + j)) = [int n] ! j"
    using assms(3) unfolding every_block_occurs_def by blast
  then have v: "fst (randint dr 0 (2 ^ 32 - 1) (pos + k)) = int n" by simp
  have "str_count (py_bin (int n)) CHR ''1'' = int (card {i. bit (nat (int n)) i})"
    by (rule str_count_py_bin) simp
  also have "\<dots> = int m" unfolding n_def by (simp only: nat_int card_bits_mask)
  also have "\<dots> = t" using assms by (simp add: m_def)
  finally have "str_count (py_bin (int n)) CHR ''1'' = t" .
  then have "CountOnes_attempt dr t (pos + k) \<noteq> None"
    unfolding CountOnes_attempt_def v Let_def by (simp split: sum.split)
  then show ?thesis by blast
qed

lemma generate_candidate_Inr:
  assumes "generate_candidate pf ex t pos = Some y"
  shows "\<exists>candidate pos'. y = (Inr candidate, pos')"
  using generate_candidate_sound [of pf ex t pos "fst y" "snd y"] assms by (cases y) auto

lemma generate_candidate_round_trip_aux:
  assumes "generate_candidate pf ex t pos = Some (Inr candidate, pos')"
  shows "extract_property pf ex candidate = Inr t"
  using generate_candidate_sound [OF assms] by auto

lemma generate_candidate_returns:
  assumes "ex = SumOctetsExtractor \<longrightarrow> (\<exists>k. SumOctets_attempt (draws pf) t (pos + 3 * k) \<noteq> None)"
    and "ex = CountOnesExtractor \<longrightarrow> (\<exists>k. CountOnes_attempt (draws pf) t (pos + k) \<noteq> None)"
  shows "\<exists>candidate pos'. generate_candidate pf ex t pos = Some (Inr candidate, pos')
           \<and> extract_property pf ex candidate = Inr t"
proof -
  have "\<exists>y. generate_candidate pf ex t pos = Some y"
    using assms SumOctets_loop_iff [of "draws pf" t pos] CountOnes_loop_iff [of "draws pf" t pos]
    by (cases ex) simp_all
  then obtain y where y: "generate_candidate pf ex t pos = Some y" by blast
  then obtain candidate pos' where "y = (Inr candidate, pos')"
    using generate_candidate_Inr by blast
  with y have g: "generate_candidate pf ex t pos = Some (Inr candidate, pos')" by simp
  then have "extract_property pf ex candidate = Inr t" by (rule generate_candidate_round_trip_aux)
  with g show ?thesis by blast
qed

subsection \<open>The round trip\<close>

text \<open>
  C2. For every target in the valid range of the strategy (\<open>[0, 1020]\<close> for the sum of
  octets, \<open>[0, 32]\<close> for the count of ones), on a random source, that is one in which every
  block of values that the loop can draw occurs from the current position on,
  \<open>generate_candidate\<close> returns an address, and \<open>extract_property\<close> of the same strategy gives
  the target back on it. Moreover, on any source and for any target, whatever
  \<open>generate_candidate\<close> returns is an address on which \<open>extract_property\<close> gives the target.
\<close>

theorem generate_candidate_round_trip:
  "(0 \<le> t \<and> t \<le> 1020 \<and> every_block_occurs (draws pf) 0 255 3 pos \<longrightarrow>
      (\<exists>candidate pos'.
         generate_candidate pf SumOctetsExtractor t pos = Some (Inr candidate, pos')
         \<and> extract_property pf SumOctetsExtractor candidate = Inr t))
   \<and> (0 \<le> t \<and> t \<le> 32 \<and> every_block_occurs (draws pf) 0 (2 ^ 32 - 1) 1 pos \<longrightarrow>
      (\<exists>candidate pos'.
         generate_candidate pf CountOnesExtractor t pos = Some (Inr candidate, pos')
         \<and> extract_property pf CountOnesExtractor candidate = Inr t))
   \<and> (\<forall>r pos'. generate_candidate pf ex t pos = Some (r, pos') \<longrightarrow>
         (\<exists>candidate. r = Inr candidate \<and> extract_property pf ex candidate = Inr t))"
proof (intro conjI impI allI)
  assume "0 \<le> t \<and> t \<le> 1020 \<and> every_block_occurs (draws pf) 0 255 3 pos"
  then have "\<exists>k. SumOctets_attempt (draws pf) t (pos + 3 * k) \<noteq> None"
    using SumOctets_attempt_occurs by blast
  then show "\<exists>candidate pos'.
         generate_candidate pf SumOctetsExtractor t pos = Some (Inr candidate, pos')
         \<and> extract_property pf SumOctetsExtractor candidate = Inr t"
    by (intro generate_candidate_returns) simp_all
next
  assume "0 \<le> t \<and> t \<le> 32 \<and> every_block_occurs (draws pf) 0 (2 ^ 32 - 1) 1 pos"
  then have "\<exists>k. CountOnes_attempt (draws pf) t (pos + k) \<noteq> None"
    using CountOnes_attempt_occurs by blast
  then show "\<exists>candidate pos'.
         generate_candidate pf CountOnesExtractor t pos = Some (Inr candidate, pos')
         \<and> extract_property pf CountOnesExtractor candidate = Inr t"
    by (intro generate_candidate_returns) simp_all
next
  fix r pos'
  assume "generate_candidate pf ex t pos = Some (r, pos')"
  from generate_candidate_sound [OF this]
  show "\<exists>candidate. r = Inr candidate \<and> extract_property pf ex candidate = Inr t" by blast
qed

theorem generate_candidate_round_trip_witness:
  "(\<exists>candidate pos'.
      generate_candidate \<lparr>draws = digit_draws, libc = strict_libc, unicode_int = ascii_only\<rparr>
        SumOctetsExtractor 1020 0 = Some (Inr candidate, pos')
      \<and> extract_property \<lparr>draws = digit_draws, libc = strict_libc, unicode_int = ascii_only\<rparr>
          SumOctetsExtractor candidate = Inr 1020)
   \<and> (\<exists>candidate pos'.
      generate_candidate \<lparr>draws = counter_draws, libc = strict_libc, unicode_int = ascii_only\<rparr>
        CountOnesExtractor 32 0 = Some (Inr candidate, pos')
      \<and> extract_property \<lparr>draws = counter_draws, libc = strict_libc, unicode_int = ascii_only\<rparr>
          CountOnesExtractor candidate = Inr 32)"
  using generate_candidate_round_trip
      [of 1020 "\<lparr>draws = digit_draws, libc = strict_libc, unicode_int = ascii_only\<rparr>" 0]
    generate_candidate_round_trip
      [of 32 "\<lparr>draws = counter_draws, libc = strict_libc, unicode_int = ascii_only\<rparr>" 0]
    every_block_occurs_digit_draws every_block_occurs_counter_draws [of 0]
  by simp

subsection \<open>The loops return\<close>



text \<open>
  The hypothesis on the source is needed. On the source whose every draw is 0, no pass of
  the loop for the sum of octets accepts the target 1020: the call does not return.
\<close>

lemma generate_candidate_zero_draws_loops:
  "generate_candidate \<lparr>draws = zero_draws, libc = strict_libc, unicode_int = ascii_only\<rparr>
     SumOctetsExtractor 1020 0 = None"
proof -
  have "SumOctets_attempt zero_draws 1020 p = None" for p
    by (simp add: SumOctets_attempt_def randint_def zero_draws_def Let_def)
  then have "\<not> (\<exists>k. SumOctets_attempt zero_draws 1020 (0 + 3 * k) \<noteq> None)" by simp
  then have "\<not> (\<exists>y. SumOctets_generate_candidate zero_draws 1020 0 = Some y)"
    using SumOctets_loop_iff [of zero_draws 1020 0] by blast
  then show ?thesis
    by (cases "SumOctets_generate_candidate zero_draws 1020 0") simp_all
qed

subsection \<open>The attempts made for one seed\<close>

lemma is_available_eq:
  "is_available chk ip st
   = (chk (length (probed st)) ip, st\<lparr>probed := probed st @ [(ip, chk (length (probed st)) ip)]\<rparr>)"
  by (simp add: is_available_def Let_def)

lemma attempt_loop_Suc_cases:
  assumes "attempt_loop self pf ex ip prop (Suc n) pairs st = Some (Inr (pairs', st'))"
  obtains candidate pos where
    "generate_candidate pf ex prop (rng_pos st) = Some (Inr candidate, pos)"
    "candidate = ip"
    "attempt_loop self pf ex ip prop n pairs
       (st\<lparr>rng_pos := pos, generated := generated st @ [candidate]\<rparr>) = Some (Inr (pairs', st'))"
  | candidate pos ok where
    "generate_candidate pf ex prop (rng_pos st) = Some (Inr candidate, pos)"
    "candidate \<noteq> ip"
    "ok = checker self (length (probed st)) candidate"
    "attempt_loop self pf ex ip prop n
       (if ok then pairs @ [pair_row ip candidate prop] else pairs)
       (st\<lparr>rng_pos := pos, generated := generated st @ [candidate],
           probed := probed st @ [(candidate, ok)]\<rparr>) = Some (Inr (pairs', st'))"
proof -
  from assms obtain r pos where g: "generate_candidate pf ex prop (rng_pos st) = Some (r, pos)"
    by (cases "generate_candidate pf ex prop (rng_pos st)") auto
  from assms g obtain candidate where r: "r = Inr candidate"
    by (cases r) auto
  show ?thesis
  proof (cases "candidate = ip")
    case True
    with assms g r that(1) show ?thesis by (simp add: Let_def)
  next
    case False
    with assms g r that(2) [of candidate pos "checker self (length (probed st)) candidate"]
    show ?thesis by (simp add: Let_def is_available_eq split: if_splits)
  qed
qed

lemma attempt_loop_Inr:
  assumes "attempt_loop self pf ex ip prop n pairs st = Some (Inr (pairs', st'))"
  shows "\<exists>cs ps. generated st' = generated st @ cs \<and> length cs = n
           \<and> (\<forall>c\<in>set cs. extract_property pf ex c = Inr prop)
           \<and> probed st' = probed st @ ps \<and> map fst ps = filter (\<lambda>c. c \<noteq> ip) cs
           \<and> (\<forall>q\<in>set ps. \<exists>k. snd q = checker self k (fst q))
           \<and> pairs' = pairs @ map (\<lambda>q. pair_row ip (fst q) prop) (filter snd ps)"
  using assms
proof (induction n arbitrary: pairs st)
  case 0
  then show ?case by simp
next
  case (Suc n)
  from Suc.prems show ?case
  proof (cases rule: attempt_loop_Suc_cases)
    case (1 candidate pos)
    let ?st1 = "st\<lparr>rng_pos := pos, generated := generated st @ [candidate]\<rparr>"
    from Suc.IH [OF 1(3)] obtain cs ps where
      h: "generated st' = generated ?st1 @ cs" "length cs = n"
         "\<forall>c\<in>set cs. extract_property pf ex c = Inr prop"
         "probed st' = probed ?st1 @ ps" "map fst ps = filter (\<lambda>c. c \<noteq> ip) cs"
         "\<forall>q\<in>set ps. \<exists>k. snd q = checker self k (fst q)"
         "pairs' = pairs @ map (\<lambda>q. pair_row ip (fst q) prop) (filter snd ps)"
      by blast
    have e: "extract_property pf ex candidate = Inr prop"
      using generate_candidate_round_trip_aux [OF 1(1)] by simp
    have "generated st' = generated st @ (candidate # cs) \<and> length (candidate # cs) = Suc n
           \<and> (\<forall>c\<in>set (candidate # cs). extract_property pf ex c = Inr prop)
           \<and> probed st' = probed st @ ps
           \<and> map fst ps = filter (\<lambda>c. c \<noteq> ip) (candidate # cs)
           \<and> (\<forall>q\<in>set ps. \<exists>k. snd q = checker self k (fst q))
           \<and> pairs' = pairs @ map (\<lambda>q. pair_row ip (fst q) prop) (filter snd ps)"
      using h e 1(2) by simp
    then show ?thesis by blast
  next
    case (2 candidate pos ok)
    let ?st2 = "st\<lparr>rng_pos := pos, generated := generated st @ [candidate],
                   probed := probed st @ [(candidate, ok)]\<rparr>"
    let ?pairs2 = "if ok then pairs @ [pair_row ip candidate prop] else pairs"
    from Suc.IH [OF 2(4)] obtain cs ps where
      h: "generated st' = generated ?st2 @ cs" "length cs = n"
         "\<forall>c\<in>set cs. extract_property pf ex c = Inr prop"
         "probed st' = probed ?st2 @ ps" "map fst ps = filter (\<lambda>c. c \<noteq> ip) cs"
         "\<forall>q\<in>set ps. \<exists>k. snd q = checker self k (fst q)"
         "pairs' = ?pairs2 @ map (\<lambda>q. pair_row ip (fst q) prop) (filter snd ps)"
      by blast
    have e: "extract_property pf ex candidate = Inr prop"
      using generate_candidate_round_trip_aux [OF 2(1)] by simp
    have k: "\<exists>k. snd (candidate, ok) = checker self k (fst (candidate, ok))"
      using 2(3) by auto
    have "generated st' = generated st @ (candidate # cs) \<and> length (candidate # cs) = Suc n
           \<and> (\<forall>c\<in>set (candidate # cs). extract_property pf ex c = Inr prop)
           \<and> probed st' = probed st @ ((candidate, ok) # ps)
           \<and> map fst ((candidate, ok) # ps) = filter (\<lambda>c. c \<noteq> ip) (candidate # cs)
           \<and> (\<forall>q\<in>set ((candidate, ok) # ps). \<exists>k. snd q = checker self k (fst q))
           \<and> pairs' = pairs @ map (\<lambda>q. pair_row ip (fst q) prop)
                                   (filter snd ((candidate, ok) # ps))"
      using h e k 2(2) by simp
    then show ?thesis by blast
  qed
qed

lemma attempt_loop_returns:
  assumes "\<forall>pos. \<exists>y. generate_candidate pf ex prop pos = Some y"
  shows "\<exists>pairs' st'. attempt_loop self pf ex ip prop n pairs st = Some (Inr (pairs', st'))"
proof (induction n arbitrary: pairs st)
  case 0
  then show ?case by simp
next
  case (Suc n)
  from assms obtain y where "generate_candidate pf ex prop (rng_pos st) = Some y" by blast
  then obtain candidate pos where
    g: "generate_candidate pf ex prop (rng_pos st) = Some (Inr candidate, pos)"
    using generate_candidate_Inr by blast
  show ?case
  proof (cases "candidate = ip")
    case True
    then show ?thesis using g Suc.IH by (simp add: Let_def)
  next
    case False
    then show ?thesis using g Suc.IH by (simp add: Let_def is_available_eq)
  qed
qed

subsection \<open>The loop over the seeds\<close>

lemma seed_loop_Cons_cases:
  assumes "seed_loop self pf ex (ip # ips) pairs st = Some (Inr (pairs', st'))"
  obtains
    "\<not> checker self (length (probed st)) ip"
    "seed_loop self pf ex ips pairs (st\<lparr>probed := probed st @ [(ip, False)]\<rparr>)
       = Some (Inr (pairs', st'))"
  | p pairs1 st1 where
    "checker self (length (probed st)) ip"
    "extract_property pf ex ip = Inr p"
    "attempt_loop self pf ex ip p (nat (attempts self)) pairs
       (st\<lparr>probed := probed st @ [(ip, True)]\<rparr>) = Some (Inr (pairs1, st1))"
    "seed_loop self pf ex ips pairs1 st1 = Some (Inr (pairs', st'))"
proof (cases "checker self (length (probed st)) ip")
  case False
  with assms that(1) show ?thesis by (simp add: is_available_eq)
next
  case True
  let ?st1 = "st\<lparr>probed := probed st @ [(ip, True)]\<rparr>"
  from assms True obtain v where p: "extract_property pf ex ip = Inr v"
    by (cases "extract_property pf ex ip") (auto simp: is_available_eq)
  from assms True p obtain r where
    a: "attempt_loop self pf ex ip v (nat (attempts self)) pairs ?st1 = Some r"
    by (cases "attempt_loop self pf ex ip v (nat (attempts self)) pairs ?st1")
       (auto simp: is_available_eq)
  from assms True p a obtain pairs1 st1 where r: "r = Inr (pairs1, st1)"
    by (cases r) (auto simp: is_available_eq)
  from assms True p a r have "seed_loop self pf ex ips pairs1 st1 = Some (Inr (pairs', st'))"
    by (simp add: is_available_eq)
  with True p a r that(2) show ?thesis by blast
qed

lemma seed_loop_single:
  "seed_loop self pf ex [ip] pairs st =
     (if checker self (length (probed st)) ip then
        (case extract_property pf ex ip of
           Inl e \<Rightarrow> Some (Inl e)
         | Inr prop \<Rightarrow>
             attempt_loop self pf ex ip prop (nat (attempts self)) pairs
               (st\<lparr>probed := probed st @ [(ip, True)]\<rparr>))
      else Some (Inr (pairs, st\<lparr>probed := probed st @ [(ip, False)]\<rparr>)))"
  by (auto simp: is_available_eq split: sum.splits option.splits)

lemma seed_loop_unreachable:
  assumes "\<forall>n a. \<not> checker self n a"
  shows "seed_loop self pf ex ips pairs st
         = Some (Inr (pairs, st\<lparr>probed := probed st @ map (\<lambda>ip. (ip, False)) ips\<rparr>))"
proof (induction ips arbitrary: st)
  case Nil
  then show ?case by simp
next
  case (Cons ip ips)
  then show ?case using assms by (simp add: is_available_eq)
qed

lemma seed_loop_Inr:
  assumes "seed_loop self pf ex ips pairs st = Some (Inr (pairs', st'))"
  shows "\<exists>new. pairs' = pairs @ new \<and> set (probed st) \<subseteq> set (probed st')
           \<and> (\<forall>row\<in>set new. \<exists>ip candidate p.
                 ip \<in> set ips \<and> row = pair_row ip candidate p \<and> candidate \<noteq> ip
                 \<and> extract_property pf ex ip = Inr p
                 \<and> extract_property pf ex candidate = Inr p
                 \<and> (ip, True) \<in> set (probed st') \<and> (candidate, True) \<in> set (probed st'))"
proof -
  define M where "M = (\<lambda>seeds row. \<exists>ip candidate p.
                 ip \<in> seeds \<and> row = pair_row ip candidate p \<and> candidate \<noteq> ip
                 \<and> extract_property pf ex ip = Inr p
                 \<and> extract_property pf ex candidate = Inr p
                 \<and> (ip, True) \<in> set (probed st') \<and> (candidate, True) \<in> set (probed st'))"
  have mono: "M B row" if "M A row" "A \<subseteq> B" for A B row
  proof -
    from that(1) obtain ip candidate p where
      h: "ip \<in> A" "row = pair_row ip candidate p \<and> candidate \<noteq> ip
           \<and> extract_property pf ex ip = Inr p
           \<and> extract_property pf ex candidate = Inr p
           \<and> (ip, True) \<in> set (probed st') \<and> (candidate, True) \<in> set (probed st')"
      unfolding M_def by blast
    from h(1) that(2) have "ip \<in> B" by blast
    with h(2) show ?thesis unfolding M_def by blast
  qed
  have main: "\<exists>new. pairs' = pairs @ new \<and> set (probed st) \<subseteq> set (probed st')
                \<and> (\<forall>row\<in>set new. M (set ips) row)"
    using assms
  proof (induction ips arbitrary: pairs st)
    case Nil
    then show ?case by simp
  next
    case (Cons ip ips)
    have up: "M (set (ip # ips)) row" if "M (set ips) row" for row
      using that by (rule mono) auto
    from Cons.prems show ?case
    proof (cases rule: seed_loop_Cons_cases)
      case 1
      from Cons.IH [OF 1(2)] obtain new where
        n: "pairs' = pairs @ new"
           "set (probed (st\<lparr>probed := probed st @ [(ip, False)]\<rparr>)) \<subseteq> set (probed st')"
           "\<forall>row\<in>set new. M (set ips) row"
        by blast
      from n(2) have s: "set (probed st) \<subseteq> set (probed st')" by simp
      have "\<forall>row\<in>set new. M (set (ip # ips)) row"
        using n(3) up by blast
      with n(1) s show ?thesis by blast
    next
      case (2 v pairs1 st1)
      let ?st0 = "st\<lparr>probed := probed st @ [(ip, True)]\<rparr>"
      let ?mine = "map (\<lambda>q. pair_row ip (fst q) v) (filter snd ps)"
      from attempt_loop_Inr [OF 2(3)] obtain cs ps where
        a: "\<forall>c\<in>set cs. extract_property pf ex c = Inr v"
           "probed st1 = probed ?st0 @ ps" "map fst ps = filter (\<lambda>c. c \<noteq> ip) cs"
           "pairs1 = pairs @ map (\<lambda>q. pair_row ip (fst q) v) (filter snd ps)"
        by blast
      from Cons.IH [OF 2(4)] obtain new where
        n: "pairs' = pairs1 @ new" "set (probed st1) \<subseteq> set (probed st')"
           "\<forall>row\<in>set new. M (set ips) row"
        by blast
      have sub: "set (probed st) \<subseteq> set (probed st')" "(ip, True) \<in> set (probed st')"
        "set ps \<subseteq> set (probed st')"
        using a(2) n(2) by auto
      have mine: "M (set (ip # ips)) row"
        if "row \<in> set (map (\<lambda>q. pair_row ip (fst q) v) (filter snd ps))" for row
      proof -
        from that obtain q where q: "q \<in> set ps" "snd q" "row = pair_row ip (fst q) v"
          by auto
        from q(1) have "fst q \<in> set (map fst ps)" by simp
        then have f: "fst q \<in> set cs" "fst q \<noteq> ip" using a(3) by auto
        have "(fst q, True) = q" using q(2) by (cases q) simp
        then have c: "(fst q, True) \<in> set (probed st')" using q(1) sub(3) by auto
        have e: "extract_property pf ex (fst q) = Inr v" using f(1) a(1) by blast
        have "ip \<in> set (ip # ips) \<and> row = pair_row ip (fst q) v \<and> fst q \<noteq> ip
              \<and> extract_property pf ex ip = Inr v \<and> extract_property pf ex (fst q) = Inr v
              \<and> (ip, True) \<in> set (probed st') \<and> (fst q, True) \<in> set (probed st')"
          using q(3) f(2) e 2(2) sub(2) c by simp
        then show ?thesis unfolding M_def by blast
      qed
      have rest: "M (set (ip # ips)) row" if "row \<in> set new" for row
        using n(3) that up by blast
      have "pairs' = pairs @ (map (\<lambda>q. pair_row ip (fst q) v) (filter snd ps) @ new)"
        using a(4) n(1) by simp
      moreover have "\<forall>row\<in>set (map (\<lambda>q. pair_row ip (fst q) v) (filter snd ps) @ new).
                        M (set (ip # ips)) row"
        using mine rest by (simp only: set_append Un_iff) blast
      ultimately show ?thesis using sub(1) by blast
    qed
  qed
  then show ?thesis unfolding M_def .
qed

subsection \<open>Example runs\<close>

lemma generate_zero_draws:
  assumes "0 \<le> t" "t \<le> 255"
  shows "SumOctets_generate_candidate zero_draws t pos = Some (Inr (dotted 0 0 0 t), pos + 3)"
proof -
  have "SumOctets_attempt zero_draws t pos = Some (Inr (dotted 0 0 0 t))"
    using assms by (simp add: SumOctets_attempt_def randint_def zero_draws_def Let_def)
  then show ?thesis by (subst SumOctets_generate_candidate.simps) simp
qed

lemma generate_tens_draws:
  "SumOctets_generate_candidate tens_draws 100 0 = Some (Inr ''10.20.30.40'', 3)"
proof -
  have "SumOctets_attempt tens_draws 100 0 = Some (Inr ''10.20.30.40'')"
    by (simp add: SumOctets_attempt_def randint_def tens_draws_def Let_def eval_text)
  then show ?thesis by (subst SumOctets_generate_candidate.simps) simp
qed

lemma example_texts:
  "dotted 0 0 0 0 = ''0.0.0.0''" "dotted 0 0 0 10 = ''0.0.0.10''"
  "dotted 1 2 3 4 = ''1.2.3.4''" "dotted 40 30 20 10 = ''40.30.20.10''"
  "dotted 8 8 8 8 = ''8.8.8.8''"
  by (simp_all add: eval_text)

lemma example_sums:
  "SumOctets_extract_property uni ''0.0.0.0'' = Inr 0"
  "SumOctets_extract_property uni ''1.2.3.4'' = Inr 10"
  "SumOctets_extract_property uni ''40.30.20.10'' = Inr 100"
  using SumOctets_extract_property_dotted [of 0 0 0 0 uni]
    SumOctets_extract_property_dotted [of 1 2 3 4 uni]
    SumOctets_extract_property_dotted [of 40 30 20 10 uni]
  by (simp_all add: example_texts)

lemma attempt_loop_all_equal_seed:
  "attempt_loop self \<lparr>draws = zero_draws, libc = lc, unicode_int = uni\<rparr> SumOctetsExtractor ''0.0.0.0'' 0 n pairs st
   = Some (Inr (pairs, st\<lparr>rng_pos := rng_pos st + 3 * n,
                           generated := generated st @ replicate n ''0.0.0.0''\<rparr>))"
proof (induction n arbitrary: st)
  case 0
  then show ?case by simp
next
  case (Suc n)
  have g: "SumOctets_generate_candidate zero_draws 0 (rng_pos st)
           = Some (Inr ''0.0.0.0'', rng_pos st + 3)"
    using generate_zero_draws [of 0 "rng_pos st"] by (simp add: example_texts)
  show ?case
    by (simp add: g Let_def Suc.IH)
qed

subsection \<open>The pairs that \<open>find_pairs\<close> returns\<close>

lemma find_pairs_rows_fields:
  assumes "find_pairs self pf ips prop_extractor st = Some (Inr (pairs, st'))"
  shows "\<forall>row\<in>set pairs. \<exists>ip candidate p. row = pair_row ip candidate p"
proof -
  from assms have "seed_loop self pf prop_extractor ips [] st = Some (Inr (pairs, st'))"
    by (simp add: find_pairs_def)
  from seed_loop_Inr [OF this] show ?thesis by simp blast
qed

text \<open>
  C1. In every tuple of the list that \<open>find_pairs\<close> returns, the first address is one of
  the seeds, \<open>extract_property\<close> of the strategy gives the same value on the seed and on
  the candidate, that value is the one written in the last field of the tuple, and the
  candidate is not the seed. (Both were probed with the answer "reachable".)
\<close>

theorem find_pairs_rows_share_property:
  assumes "find_pairs self pf ips prop_extractor st = Some (Inr (pairs, st'))"
  shows "\<forall>row\<in>set pairs. \<exists>ip candidate p.
           ip \<in> set ips
           \<and> row = (ip, available_marker, candidate, available_marker, property_label p)
           \<and> extract_property pf prop_extractor ip = Inr p
           \<and> extract_property pf prop_extractor candidate = Inr p
           \<and> candidate \<noteq> ip
           \<and> (ip, True) \<in> set (probed st') \<and> (candidate, True) \<in> set (probed st')"
proof -
  from assms have "seed_loop self pf prop_extractor ips [] st = Some (Inr (pairs, st'))"
    by (simp add: find_pairs_def)
  from seed_loop_Inr [OF this] show ?thesis
    by (simp add: pair_row_def) blast
qed

lemma find_pairs_tens_run:
  "find_pairs \<lparr>checker = always_reachable, attempts = 1\<rparr>
     \<lparr>draws = tens_draws, libc = strict_libc, unicode_int = ascii_only\<rparr> [''40.30.20.10''] SumOctetsExtractor initial_state
   = Some (Inr ([pair_row ''40.30.20.10'' ''10.20.30.40'' 100],
                \<lparr>rng_pos = 3, probed = [(''40.30.20.10'', True), (''10.20.30.40'', True)],
                 generated = [''10.20.30.40'']\<rparr>))"
  by (simp add: find_pairs_def is_available_eq always_reachable_def initial_state_def
      example_sums generate_tens_draws Let_def)

theorem find_pairs_rows_share_property_witness:
  "find_pairs \<lparr>checker = always_reachable, attempts = 1\<rparr>
     \<lparr>draws = tens_draws, libc = strict_libc, unicode_int = ascii_only\<rparr> [''40.30.20.10''] SumOctetsExtractor initial_state
   = Some (Inr ([(''40.30.20.10'', available_marker, ''10.20.30.40'', available_marker,
                  property_label 100)],
                \<lparr>rng_pos = 3, probed = [(''40.30.20.10'', True), (''10.20.30.40'', True)],
                 generated = [''10.20.30.40'']\<rparr>))
   \<and> extract_property \<lparr>draws = tens_draws, libc = strict_libc, unicode_int = ascii_only\<rparr> SumOctetsExtractor
        ''10.20.30.40'' = Inr 100"
proof -
  note run = find_pairs_tens_run [unfolded pair_row_def]
  from find_pairs_rows_share_property [OF run]
  obtain ip candidate p where
    h: "ip \<in> set [''40.30.20.10'']"
       "(''40.30.20.10'', available_marker, ''10.20.30.40'', available_marker, property_label 100)
        = (ip, available_marker, candidate, available_marker, property_label p)"
       "extract_property \<lparr>draws = tens_draws, libc = strict_libc, unicode_int = ascii_only\<rparr> SumOctetsExtractor ip = Inr p"
       "extract_property \<lparr>draws = tens_draws, libc = strict_libc, unicode_int = ascii_only\<rparr> SumOctetsExtractor candidate
        = Inr p"
    by auto
  from h(1) h(3) have "p = 100" by (simp add: example_sums)
  with h(2) h(4) run show ?thesis by simp
qed

text \<open>
  C5. When the checker reports every address unreachable, \<open>find_pairs\<close> probes each seed
  once, draws no candidate and returns the empty list; on the empty list of seeds it
  returns the empty list whatever the checker says.
\<close>

theorem find_pairs_nothing_reachable:
  "((\<forall>n a. \<not> checker self n a) \<longrightarrow>
      find_pairs self pf ips prop_extractor st
      = Some (Inr ([], st\<lparr>probed := probed st @ map (\<lambda>ip. (ip, False)) ips\<rparr>)))
   \<and> find_pairs self pf [] prop_extractor st = Some (Inr ([], st))"
  by (simp add: find_pairs_def seed_loop_unreachable)

theorem find_pairs_nothing_reachable_witness:
  "find_pairs \<lparr>checker = never_reachable, attempts = 10\<rparr>
     \<lparr>draws = tens_draws, libc = strict_libc, unicode_int = ascii_only\<rparr> [''1.2.3.4'', ''8.8.8.8''] CountOnesExtractor
     initial_state
   = Some (Inr ([], \<lparr>rng_pos = 0, probed = [(''1.2.3.4'', False), (''8.8.8.8'', False)],
                    generated = []\<rparr>))"
  using find_pairs_nothing_reachable
    [of "\<lparr>checker = never_reachable, attempts = 10\<rparr>"
        "\<lparr>draws = tens_draws, libc = strict_libc, unicode_int = ascii_only\<rparr>" "[''1.2.3.4'', ''8.8.8.8'']"
        CountOnesExtractor initial_state]
  by (simp add: never_reachable_def initial_state_def)

text \<open>
  C4. At any point of a run, the next seed \<open>ip\<close> is processed on its own and the run goes
  on with the other seeds. Processing it calls \<open>generate_candidate\<close> at most \<open>attempts\<close>
  times: exactly \<open>attempts\<close> times if the seed is reachable, whether the candidates differ
  from the seed or not, and never if it is not. The candidates equal to the seed are not
  probed. If no probe of a candidate answers "reachable", the seed adds no pair.
\<close>

theorem attempts_budget:
  assumes "seed_loop self pf ex (ip # ips) pairs st = Some (Inr (pairs', st'))"
  shows "\<exists>pairs1 st1.
           seed_loop self pf ex [ip] pairs st = Some (Inr (pairs1, st1))
           \<and> seed_loop self pf ex ips pairs1 st1 = Some (Inr (pairs', st'))
           \<and> length (generated st1) \<le> length (generated st) + nat (attempts self)
           \<and> (checker self (length (probed st)) ip \<longrightarrow>
                length (generated st1) = length (generated st) + nat (attempts self))
           \<and> map fst (drop (Suc (length (probed st))) (probed st1))
               = filter (\<lambda>c. c \<noteq> ip) (drop (length (generated st)) (generated st1))
           \<and> ((\<forall>q\<in>set (drop (Suc (length (probed st))) (probed st1)). \<not> snd q) \<longrightarrow>
                pairs1 = pairs)"
  using assms
proof (cases rule: seed_loop_Cons_cases)
  case 1
  let ?st1 = "st\<lparr>probed := probed st @ [(ip, False)]\<rparr>"
  have "seed_loop self pf ex [ip] pairs st = Some (Inr (pairs, ?st1))"
    using 1(1) by (simp add: seed_loop_single del: seed_loop.simps)
  moreover have "drop (Suc (length (probed st))) (probed ?st1) = []" by simp
  moreover have "drop (length (generated st)) (generated ?st1) = []" by simp
  ultimately show ?thesis using 1 by (intro exI [of _ pairs] exI [of _ ?st1]) simp
next
  case (2 v pairs1 st1)
  let ?st0 = "st\<lparr>probed := probed st @ [(ip, True)]\<rparr>"
  have s: "seed_loop self pf ex [ip] pairs st = Some (Inr (pairs1, st1))"
    using 2(1,2,3) by (simp add: seed_loop_single del: seed_loop.simps)
  from attempt_loop_Inr [OF 2(3)] obtain cs ps where
    a: "generated st1 = generated ?st0 @ cs" "length cs = nat (attempts self)"
       "probed st1 = probed ?st0 @ ps" "map fst ps = filter (\<lambda>c. c \<noteq> ip) cs"
       "pairs1 = pairs @ map (\<lambda>q. pair_row ip (fst q) v) (filter snd ps)"
    by blast
  have g: "drop (length (generated st)) (generated st1) = cs" using a(1) by simp
  have p: "drop (Suc (length (probed st))) (probed st1) = ps" using a(3) by simp
  have l: "length (generated st1) = length (generated st) + nat (attempts self)"
    using a(1,2) by simp
  have n: "pairs1 = pairs" if "\<forall>q\<in>set ps. \<not> snd q"
  proof -
    from that have "filter snd ps = []" by (simp add: filter_empty_conv)
    then show ?thesis using a(5) by simp
  qed
  show ?thesis
    using s 2(4) l a(4) n by (intro exI [of _ pairs1] exI [of _ st1]) (simp add: g p)
qed

lemma attempt_loop_zero_draws_run:
  "attempt_loop \<lparr>checker = only_reachable ''1.2.3.4'', attempts = 3\<rparr>
     \<lparr>draws = zero_draws, libc = strict_libc, unicode_int = ascii_only\<rparr> SumOctetsExtractor ''1.2.3.4'' 10
     3 []
     \<lparr>rng_pos = 0, probed = [(''1.2.3.4'', True)], generated = []\<rparr>
   = Some (Inr ([], \<lparr>rng_pos = 9,
                    probed = [(''1.2.3.4'', True), (''0.0.0.10'', False), (''0.0.0.10'', False),
                              (''0.0.0.10'', False)],
                    generated = [''0.0.0.10'', ''0.0.0.10'', ''0.0.0.10'']\<rparr>))"
proof -
  have g: "SumOctets_generate_candidate zero_draws 10 pos = Some (Inr ''0.0.0.10'', pos + 3)"
    for pos
    using generate_zero_draws [of 10 pos] by (simp add: example_texts)
  show ?thesis
    by (simp add: numeral_3_eq_3 g Let_def is_available_eq only_reachable_def)
qed

theorem attempts_budget_witness:
  "seed_loop \<lparr>checker = only_reachable ''1.2.3.4'', attempts = 3\<rparr>
     \<lparr>draws = zero_draws, libc = strict_libc, unicode_int = ascii_only\<rparr> SumOctetsExtractor [''1.2.3.4''] [] initial_state
   = Some (Inr ([], \<lparr>rng_pos = 9,
                    probed = [(''1.2.3.4'', True), (''0.0.0.10'', False), (''0.0.0.10'', False),
                              (''0.0.0.10'', False)],
                    generated = [''0.0.0.10'', ''0.0.0.10'', ''0.0.0.10'']\<rparr>))
   \<and> length [''0.0.0.10'', ''0.0.0.10'', ''0.0.0.10''] \<le> length ([] :: string list) + nat 3"
proof -
  let ?self = "\<lparr>checker = only_reachable ''1.2.3.4'', attempts = 3\<rparr>"
  let ?pf = "\<lparr>draws = zero_draws, libc = strict_libc, unicode_int = ascii_only\<rparr>"
  let ?final = "\<lparr>rng_pos = 9,
                 probed = [(''1.2.3.4'', True), (''0.0.0.10'', False), (''0.0.0.10'', False),
                           (''0.0.0.10'', False)],
                 generated = [''0.0.0.10'', ''0.0.0.10'', ''0.0.0.10'']\<rparr>"
  have run: "seed_loop ?self ?pf SumOctetsExtractor [''1.2.3.4''] [] initial_state
             = Some (Inr ([], ?final))"
    using attempt_loop_zero_draws_run
    by (simp add: seed_loop_single only_reachable_def initial_state_def example_sums
        del: seed_loop.simps attempt_loop.simps)
  from attempts_budget [OF run] obtain pairs1 st1 where
    h: "seed_loop ?self ?pf SumOctetsExtractor [''1.2.3.4''] [] initial_state
        = Some (Inr (pairs1, st1))"
       "length (generated st1) \<le> length (generated initial_state) + nat (attempts ?self)"
    by blast
  from h(1) run have "st1 = ?final" by simp
  with h(2) run show ?thesis by (simp add: initial_state_def)
qed

subsection \<open>One reachable seed, every candidate reachable\<close>

text \<open>
  C3, as stated, fails: 0.0.0.0 is the only address whose octets sum to 0, so with that
  seed every candidate is the seed itself and is discarded. With every raw draw equal to
  0, ten attempts and a checker that reports everything reachable, \<open>find_pairs\<close> returns
  the empty list.
\<close>

theorem find_pairs_single_seed_counterexample:
  "find_pairs \<lparr>checker = always_reachable, attempts = 10\<rparr>
     \<lparr>draws = zero_draws, libc = strict_libc, unicode_int = ascii_only\<rparr> [''0.0.0.0''] SumOctetsExtractor initial_state
   = Some (Inr ([], \<lparr>rng_pos = 30, probed = [(''0.0.0.0'', True)],
                    generated = replicate 10 ''0.0.0.0''\<rparr>))"
  by (simp add: find_pairs_def is_available_eq always_reachable_def initial_state_def
      example_sums attempt_loop_all_equal_seed del: replicate.simps attempt_loop.simps)

text \<open>
  C3, amended. For a seed list of exactly one seed on which \<open>extract_property\<close> succeeds,
  a checker that reports every address reachable and a random source on which every call
  of \<open>generate_candidate\<close> returns, \<open>find_pairs\<close> returns, in attempt order, one pair for
  each of the \<open>attempts\<close> generated candidates that differs from the seed: at least one
  pair exactly when some generated candidate differs from the seed. Every candidate has
  the seed's own property, which is the property of every returned pair, and no returned
  pair has the seed as candidate.
\<close>

theorem find_pairs_single_seed:
  assumes "\<forall>n a. checker self n a"
    and "extract_property pf ex ip = Inr p"
    and "\<forall>pos. \<exists>y. generate_candidate pf ex p pos = Some y"
  shows "\<exists>cs st'.
           find_pairs self pf [ip] ex st
             = Some (Inr (map (\<lambda>c. pair_row ip c p) (filter (\<lambda>c. c \<noteq> ip) cs), st'))
           \<and> generated st' = generated st @ cs \<and> length cs = nat (attempts self)
           \<and> (\<forall>c\<in>set cs. extract_property pf ex c = Inr p)
           \<and> (map (\<lambda>c. pair_row ip c p) (filter (\<lambda>c. c \<noteq> ip) cs) \<noteq> []
                \<longleftrightarrow> (\<exists>c\<in>set cs. c \<noteq> ip))"
proof -
  let ?st0 = "st\<lparr>probed := probed st @ [(ip, True)]\<rparr>"
  from attempt_loop_returns [OF assms(3)] obtain pairs' st' where
    a: "attempt_loop self pf ex ip p (nat (attempts self)) [] ?st0 = Some (Inr (pairs', st'))"
    by blast
  have f: "find_pairs self pf [ip] ex st = Some (Inr (pairs', st'))"
    unfolding find_pairs_def using assms(1,2) a
    by (simp add: seed_loop_single del: seed_loop.simps)
  from attempt_loop_Inr [OF a] obtain cs ps where
    h: "generated st' = generated ?st0 @ cs" "length cs = nat (attempts self)"
       "\<forall>c\<in>set cs. extract_property pf ex c = Inr p"
       "map fst ps = filter (\<lambda>c. c \<noteq> ip) cs"
       "\<forall>q\<in>set ps. \<exists>k. snd q = checker self k (fst q)"
       "pairs' = [] @ map (\<lambda>q. pair_row ip (fst q) p) (filter snd ps)"
    by blast
  have "\<forall>q\<in>set ps. snd q" using h(5) assms(1) by auto
  then have "filter snd ps = ps" by (simp add: filter_id_conv)
  then have "pairs' = map (\<lambda>c. pair_row ip c p) (map fst ps)"
    using h(6) by (simp add: comp_def)
  then have p: "pairs' = map (\<lambda>c. pair_row ip c p) (filter (\<lambda>c. c \<noteq> ip) cs)"
    using h(4) by simp
  have g: "generated st' = generated st @ cs" using h(1) by simp
  have e: "map (\<lambda>c. pair_row ip c p) (filter (\<lambda>c. c \<noteq> ip) cs) \<noteq> []
           \<longleftrightarrow> (\<exists>c\<in>set cs. c \<noteq> ip)"
    by (simp add: filter_empty_conv)
  show ?thesis
    using f p g h(2,3) e by (intro exI [of _ cs] exI [of _ st']) simp
qed

theorem find_pairs_single_seed_witness:
  "\<exists>cs st'.
     find_pairs \<lparr>checker = always_reachable, attempts = 2\<rparr>
       \<lparr>draws = zero_draws, libc = strict_libc, unicode_int = ascii_only\<rparr> [''1.2.3.4''] SumOctetsExtractor initial_state
       = Some (Inr (map (\<lambda>c. pair_row ''1.2.3.4'' c 10) (filter (\<lambda>c. c \<noteq> ''1.2.3.4'') cs), st'))
     \<and> generated st' = generated initial_state @ cs
     \<and> length cs = 2"
proof -
  let ?self = "\<lparr>checker = always_reachable, attempts = 2\<rparr>"
  let ?pf = "\<lparr>draws = zero_draws, libc = strict_libc, unicode_int = ascii_only\<rparr>"
  have c: "\<forall>n a. checker ?self n a" by (simp add: always_reachable_def)
  have s: "extract_property ?pf SumOctetsExtractor ''1.2.3.4'' = Inr 10"
    by (simp add: example_sums)
  have g: "\<forall>pos. \<exists>y. generate_candidate ?pf SumOctetsExtractor 10 pos = Some y"
    using generate_zero_draws [of 10] by simp
  from find_pairs_single_seed [OF c s g, of initial_state] show ?thesis
    by simp blast
qed

subsection \<open>What the writer receives\<close>

text \<open>
  C7, as stated, fails on the literals: the header that \<open>run\<close> hands to \<open>write_csv\<close> is in
  Russian, and the marker in the rows is the Russian word for "available".
\<close>

theorem run_header_counterexample:
  "run \<lparr>checker = never_reachable, attempts = 10\<rparr> \<lparr>draws = zero_draws, libc = strict_libc, unicode_int = ascii_only\<rparr>
     SumOctetsExtractor [] initial_state
   = Some (Inr ((header, []), initial_state))
   \<and> header \<noteq> [''Address1'', ''Status1'', ''Address2'', ''Status2'', ''Property'']
   \<and> available_marker \<noteq> ''reachable''"
  by (simp add: run_def find_pairs_def header_def available_marker_def)

text \<open>
  C7, amended. \<open>run\<close> hands to \<open>write_csv\<close> the five-column header of the source (in
  Russian: IPv4 address 1, criterion 1, IPv4 address 2, criterion 2, property) and, as
  rows, exactly the list that \<open>find_pairs\<close> returned, one row per pair; in every row the
  second and the fourth field are the marker of the source (the Russian word for
  "available").
\<close>

theorem run_hands_header_and_pairs:
  "(run pair_finder pf prop_extractor ips st = Some (Inr ((h, rows), st'))
      \<longleftrightarrow> h = header \<and> find_pairs pair_finder pf ips prop_extractor st = Some (Inr (rows, st')))
   \<and> length header = 5
   \<and> (find_pairs pair_finder pf ips prop_extractor st = Some (Inr (rows, st')) \<longrightarrow>
        (\<forall>row\<in>set rows. fst (snd row) = available_marker
                         \<and> fst (snd (snd (snd row))) = available_marker))"
proof -
  have a: "run pair_finder pf prop_extractor ips st = Some (Inr ((h, rows), st'))
      \<longleftrightarrow> h = header \<and> find_pairs pair_finder pf ips prop_extractor st = Some (Inr (rows, st'))"
    by (auto simp: run_def split: option.splits sum.splits)
  have b: "length header = 5" by (simp add: header_def)
  have c: "\<forall>row\<in>set rows. fst (snd row) = available_marker
                         \<and> fst (snd (snd (snd row))) = available_marker"
    if "find_pairs pair_finder pf ips prop_extractor st = Some (Inr (rows, st'))"
  proof
    fix row assume "row \<in> set rows"
    with find_pairs_rows_fields [OF that] obtain ip candidate p where
      "row = pair_row ip candidate p" by blast
    then show "fst (snd row) = available_marker
                         \<and> fst (snd (snd (snd row))) = available_marker"
      by (simp add: pair_row_def)
  qed
  show ?thesis using a b c by blast
qed

theorem run_hands_header_and_pairs_witness:
  "run \<lparr>checker = always_reachable, attempts = 1\<rparr>
     \<lparr>draws = tens_draws, libc = strict_libc, unicode_int = ascii_only\<rparr> SumOctetsExtractor [''40.30.20.10''] initial_state
   = Some (Inr ((header, [(''40.30.20.10'', available_marker, ''10.20.30.40'', available_marker,
                           property_label 100)]),
                \<lparr>rng_pos = 3, probed = [(''40.30.20.10'', True), (''10.20.30.40'', True)],
                 generated = [''10.20.30.40'']\<rparr>))"
  using run_hands_header_and_pairs
    [of "\<lparr>checker = always_reachable, attempts = 1\<rparr>"
        "\<lparr>draws = tens_draws, libc = strict_libc, unicode_int = ascii_only\<rparr>" SumOctetsExtractor "[''40.30.20.10'']"
        initial_state header
        "[(''40.30.20.10'', available_marker, ''10.20.30.40'', available_marker,
           property_label 100)]"
        "\<lparr>rng_pos = 3, probed = [(''40.30.20.10'', True), (''10.20.30.40'', True)],
          generated = [''10.20.30.40'']\<rparr>"]
    find_pairs_tens_run [unfolded pair_row_def]
  by simp

end
